theory Spec2Isabelle
  imports Complex_Main "HOL-Library.AList"
begin

section \<open>The Agrawal stream generator (creme/datasets/synth/agrawal.py)\<close>

text \<open>
  Python floats are modelled as exact reals (rounding, overflow and NaN are outside the
  model), Python ints as \<open>int\<close>. Exceptions are values of \<open>py_error\<close>; a loop that
  may run forever returns \<open>None\<close>.
\<close>

datatype py_error = ValueError | IndexError

subsection \<open>The pseudorandom source\<close>

text \<open>
  \<open>self._rng\<close> is the object returned by \<open>check_random_state(seed)\<close>, which is not part
  of the sources at hand. It is taken as a parameter: a state of any type \<open>'g\<close> with the
  two operations the generator calls, \<open>rand()\<close> and \<open>randint(n)\<close>, each returning the
  drawn value and the next state. \<open>randint\<close> is only ever called with the positive
  constants 61, 5, 20, 9, 30 and 10.
\<close>

record 'g rng_ops =
  rng_rand :: "'g \<Rightarrow> real \<times> 'g"
  rng_randint :: "int \<Rightarrow> 'g \<Rightarrow> int \<times> 'g"

text \<open>The contract of the source: reals in [0,1), integers in [0,n).\<close>

definition rng_ok :: "'g rng_ops \<Rightarrow> bool" where
  "rng_ok ops \<longleftrightarrow>
     (\<forall>g. 0 \<le> fst (rng_rand ops g) \<and> fst (rng_rand ops g) < 1) \<and>
     (\<forall>n g. 0 < n \<longrightarrow> 0 \<le> fst (rng_randint ops n g) \<and> fst (rng_randint ops n g) < n)"

text \<open>
  A concrete source for running the model: the state is a tape of reals, each draw
  consumes one cell (cells outside [0,1) and the exhausted tape read as 0), and
  \<open>randint n\<close> scales the cell to [0,n).
\<close>

definition tape_cell :: "real list \<Rightarrow> real \<times> real list" where
  "tape_cell g = (case g of [] \<Rightarrow> (0, []) | u # us \<Rightarrow> (if 0 \<le> u \<and> u < 1 then u else 0, us))"

definition tape_rng :: "real list rng_ops" where
  "tape_rng = \<lparr> rng_rand = tape_cell,
               rng_randint = (\<lambda>n g. (\<lfloor>fst (tape_cell g) * of_int n\<rfloor>, snd (tape_cell g))) \<rparr>"

subsection \<open>The ten classification functions\<close>

text \<open>\<open>int(b)\<close> of a Python bool.\<close>

definition py_int :: "bool \<Rightarrow> int" where
  "py_int b = (if b then 1 else 0)"

definition classification_function_0 ::
  "real \<Rightarrow> real \<Rightarrow> int \<Rightarrow> int \<Rightarrow> int \<Rightarrow> int \<Rightarrow> real \<Rightarrow> int \<Rightarrow> real \<Rightarrow> int" where
  "classification_function_0 salary commission age elevel car zipcode hvalue hyears loan =
     py_int (age < 40 \<or> 60 \<le> age)"

definition classification_function_1 ::
  "real \<Rightarrow> real \<Rightarrow> int \<Rightarrow> int \<Rightarrow> int \<Rightarrow> int \<Rightarrow> real \<Rightarrow> int \<Rightarrow> real \<Rightarrow> int" where
  "classification_function_1 salary commission age elevel car zipcode hvalue hyears loan =
     (if age < 40 then py_int (50000 \<le> salary \<and> salary \<le> 100000)
      else if age < 60 then py_int (75000 \<le> salary \<and> salary \<le> 125000)
      else py_int (25000 \<le> salary \<and> salary \<le> 75000))"

text \<open>
  In the last branch the source returns \<open>int(...) or (elevel == 4)\<close>: the integer 1 when
  the first test holds, otherwise the bool \<open>elevel == 4\<close>, which compares equal to 1 or 0.
\<close>

definition classification_function_2 ::
  "real \<Rightarrow> real \<Rightarrow> int \<Rightarrow> int \<Rightarrow> int \<Rightarrow> int \<Rightarrow> real \<Rightarrow> int \<Rightarrow> real \<Rightarrow> int" where
  "classification_function_2 salary commission age elevel car zipcode hvalue hyears loan =
     (if age < 40 then py_int (elevel = 0 \<or> elevel = 1)
      else if age < 60 then py_int (elevel = 1 \<or> elevel = 2 \<or> elevel = 3)
      else (if py_int (elevel = 2 \<or> elevel = 3) \<noteq> 0 then py_int (elevel = 2 \<or> elevel = 3)
            else py_int (elevel = 4)))"

definition classification_function_3 ::
  "real \<Rightarrow> real \<Rightarrow> int \<Rightarrow> int \<Rightarrow> int \<Rightarrow> int \<Rightarrow> real \<Rightarrow> int \<Rightarrow> real \<Rightarrow> int" where
  "classification_function_3 salary commission age elevel car zipcode hvalue hyears loan =
     (if age < 40 then
        (if elevel = 0 \<or> elevel = 1 then py_int (25000 \<le> salary \<and> salary \<le> 75000)
         else py_int (50000 \<le> salary \<and> salary \<le> 100000))
      else if age < 60 then
        (if elevel = 1 \<or> elevel = 2 \<or> elevel = 3 then py_int (50000 \<le> salary \<and> salary \<le> 100000)
         else py_int (75000 \<le> salary \<and> salary \<le> 125000))
      else
        (if elevel = 2 \<or> elevel = 3 \<or> elevel = 4 then py_int (50000 \<le> salary \<and> salary \<le> 100000)
         else py_int (25000 \<le> salary \<and> salary \<le> 75000)))"

definition classification_function_4 ::
  "real \<Rightarrow> real \<Rightarrow> int \<Rightarrow> int \<Rightarrow> int \<Rightarrow> int \<Rightarrow> real \<Rightarrow> int \<Rightarrow> real \<Rightarrow> int" where
  "classification_function_4 salary commission age elevel car zipcode hvalue hyears loan =
     (if age < 40 then
        (if 50000 \<le> salary \<and> salary \<le> 100000 then py_int (100000 \<le> loan \<and> loan \<le> 300000)
         else py_int (200000 \<le> salary \<and> salary \<le> 400000))
      else if age < 60 then
        (if 75000 \<le> salary \<and> salary \<le> 125000 then py_int (200000 \<le> salary \<and> loan \<le> 400000)
         else py_int (300000 \<le> salary \<and> salary \<le> 500000))
      else
        (if 25000 \<le> salary \<and> salary \<le> 75000 then py_int (300000 \<le> loan \<and> loan \<le> 500000)
         else py_int (75000 \<le> loan \<and> loan \<le> 300000)))"

definition classification_function_5 ::
  "real \<Rightarrow> real \<Rightarrow> int \<Rightarrow> int \<Rightarrow> int \<Rightarrow> int \<Rightarrow> real \<Rightarrow> int \<Rightarrow> real \<Rightarrow> int" where
  "classification_function_5 salary commission age elevel car zipcode hvalue hyears loan =
     (let totalsalary = salary + commission in
      if age < 40 then py_int (50000 \<le> totalsalary \<and> totalsalary \<le> 100000)
      else if age < 60 then py_int (75000 \<le> totalsalary \<and> totalsalary \<le> 125000)
      else py_int (25000 \<le> totalsalary \<and> totalsalary \<le> 75000))"

definition classification_function_6 ::
  "real \<Rightarrow> real \<Rightarrow> int \<Rightarrow> int \<Rightarrow> int \<Rightarrow> int \<Rightarrow> real \<Rightarrow> int \<Rightarrow> real \<Rightarrow> int" where
  "classification_function_6 salary commission age elevel car zipcode hvalue hyears loan =
     (let disposable = 2 * (salary + commission) / 3 - loan / 5 - 20000 in
      if disposable > 1 then 0 else 1)"

definition classification_function_7 ::
  "real \<Rightarrow> real \<Rightarrow> int \<Rightarrow> int \<Rightarrow> int \<Rightarrow> int \<Rightarrow> real \<Rightarrow> int \<Rightarrow> real \<Rightarrow> int" where
  "classification_function_7 salary commission age elevel car zipcode hvalue hyears loan =
     (let disposable = 2 * (salary + commission) / 3 - 5000 * of_int elevel - 20000 in
      if disposable > 1 then 0 else 1)"

definition classification_function_8 ::
  "real \<Rightarrow> real \<Rightarrow> int \<Rightarrow> int \<Rightarrow> int \<Rightarrow> int \<Rightarrow> real \<Rightarrow> int \<Rightarrow> real \<Rightarrow> int" where
  "classification_function_8 salary commission age elevel car zipcode hvalue hyears loan =
     (let disposable = 2 * (salary + commission) / 3 - 5000 * of_int elevel - loan / 5 - 10000 in
      if disposable > 1 then 0 else 1)"

definition classification_function_9 ::
  "real \<Rightarrow> real \<Rightarrow> int \<Rightarrow> int \<Rightarrow> int \<Rightarrow> int \<Rightarrow> real \<Rightarrow> int \<Rightarrow> real \<Rightarrow> int" where
  "classification_function_9 salary commission age elevel car zipcode hvalue hyears loan =
     (let equity = (if hyears \<ge> 20 then hvalue * of_int (hyears - 20) / 10 else 0);
          disposable = 2 * (salary + commission) / 3 - 5000 * of_int elevel + equity / 5 - 10000 in
      if disposable > 1 then 0 else 1)"

definition classification_functions ::
  "(real \<Rightarrow> real \<Rightarrow> int \<Rightarrow> int \<Rightarrow> int \<Rightarrow> int \<Rightarrow> real \<Rightarrow> int \<Rightarrow> real \<Rightarrow> int) list" where
  "classification_functions =
     [classification_function_0, classification_function_1, classification_function_2,
      classification_function_3, classification_function_4, classification_function_5,
      classification_function_6, classification_function_7, classification_function_8,
      classification_function_9]"

subsection \<open>Records and generator state\<close>

record sample =
  salary :: real
  commission :: real
  age :: int
  elevel :: int
  car :: int
  zipcode :: int
  hvalue :: real
  hyears :: int
  loan :: real

record 'g agrawal =
  classification_function :: int
  balance_classes :: bool
  perturbation :: real
  sample_idx :: int
  next_class_should_be_zero :: bool
  current_sample :: "(sample \<times> int) option"
  rng :: 'g

text \<open>\<open>__init__\<close>: the two range checks, in the order of the source.\<close>

definition init :: "int \<Rightarrow> 'g \<Rightarrow> bool \<Rightarrow> real \<Rightarrow> py_error + 'g agrawal" where
  "init cf seed bal pert =
     (if \<not> (0 \<le> cf \<and> cf < 10) then Inl ValueError
      else if \<not> (0 \<le> pert \<and> pert \<le> 1) then Inl ValueError
      else Inr \<lparr> classification_function = cf, balance_classes = bal, perturbation = pert,
                 sample_idx = 0, next_class_should_be_zero = False, current_sample = None,
                 rng = seed \<rparr>)"

subsection \<open>Dispatch\<close>

text \<open>
  Subscripting a Python list: an index from \<open>-len\<close> up to \<open>-1\<close> is taken from the
  end, anything outside \<open>-len .. len - 1\<close> raises \<open>IndexError\<close>.
\<close>

definition py_index :: "'a list \<Rightarrow> int \<Rightarrow> py_error + 'a" where
  "py_index xs i =
     (if 0 \<le> i \<and> i < int (length xs) then Inr (xs ! nat i)
      else if - int (length xs) \<le> i \<and> i < 0 then Inr (xs ! nat (int (length xs) + i))
      else Inl IndexError)"

text \<open>
  \<open>self._classification_functions[self.classification_function](salary, ..., loan)\<close>
\<close>

definition classify :: "int \<Rightarrow> sample \<Rightarrow> py_error + int" where
  "classify cf s =
     (case py_index classification_functions cf of
        Inl e \<Rightarrow> Inl e
      | Inr f \<Rightarrow> Inr (f (salary s) (commission s) (age s) (elevel s) (car s) (zipcode s)
                       (hvalue s) (hyears s) (loan s)))"

subsection \<open>Drawing a candidate and the rejection loop of \<open>__iter__\<close>\<close>

text \<open>The nine draws of lines 128 to 136, in the order of the source.\<close>

definition draw :: "'g rng_ops \<Rightarrow> 'g \<Rightarrow> sample \<times> 'g" where
  "draw ops g0 =
     (let (u1, g1) = rng_rand ops g0;
          sal = 20000 + 130000 * u1;
          (com, g2) = (if sal \<ge> 75000 then (0, g1)
                       else (let (u2, g) = rng_rand ops g1 in (10000 + 75000 * u2, g)));
          (a, g3) = rng_randint ops 61 g2;
          (el, g4) = rng_randint ops 5 g3;
          (c, g5) = rng_randint ops 20 g4;
          (z, g6) = rng_randint ops 9 g5;
          (u3, g7) = rng_rand ops g6;
          (hy, g8) = rng_randint ops 30 g7;
          (u4, g9) = rng_rand ops g8
      in (\<lparr> salary = sal, commission = com, age = 20 + a, elevel = el, car = c, zipcode = z,
            hvalue = of_int (9 - z) * 100000 * (0.5 + u3), hyears = 1 + hy,
            loan = u4 * 500000 \<rparr>, g9))"

text \<open>
  The inner \<open>while not desired_class_found\<close> loop. It has no bound on its retries, so it
  is a partial function: \<open>None\<close> is a loop that never leaves.
\<close>

partial_function (option) rejection_loop ::
  "'g rng_ops \<Rightarrow> 'g agrawal \<Rightarrow> (py_error + (sample \<times> int \<times> 'g agrawal)) option" where
  "rejection_loop ops st =
     (case draw ops (rng st) of (cand, g) \<Rightarrow>
        (case classify (classification_function st) cand of
           Inl e \<Rightarrow> Some (Inl e)
         | Inr grp \<Rightarrow>
             if \<not> balance_classes st then Some (Inr (cand, grp, st\<lparr>rng := g\<rparr>))
             else if (next_class_should_be_zero st \<and> grp = 0) \<or>
                     (\<not> next_class_should_be_zero st \<and> grp = 1)
             then Some (Inr (cand, grp,
                     st\<lparr>rng := g, next_class_should_be_zero := \<not> next_class_should_be_zero st\<rparr>))
             else rejection_loop ops (st\<lparr>rng := g\<rparr>)))"

subsection \<open>Perturbation\<close>

text \<open>\<open>_perturb_value(val, val_min, val_max, val_range=None)\<close>\<close>

definition perturb_value ::
  "'g rng_ops \<Rightarrow> real \<Rightarrow> real \<Rightarrow> real \<Rightarrow> real \<Rightarrow> real option \<Rightarrow> 'g \<Rightarrow> real \<times> 'g" where
  "perturb_value ops pert val val_min val_max val_range g =
     (let r = (case val_range of None \<Rightarrow> val_max - val_min | Some r' \<Rightarrow> r');
          (u, g') = rng_rand ops g;
          v = val + r * (2 * (u - 0.5)) * pert
      in (if v < val_min then val_min else if v > val_max then val_max else v, g'))"

text \<open>\<open>np.round\<close>: to the nearest integer, a tie to the even one.\<close>

definition np_round :: "real \<Rightarrow> int" where
  "np_round x =
     (let f = \<lfloor>x\<rfloor>; d = x - of_int f
      in if d < 1/2 then f else if 1/2 < d then f + 1 else if even f then f else f + 1)"

text \<open>
  Lines 153 to 159. The arguments are passed in the positions the source passes them:
  for \<open>hvalue\<close> that is \<open>val_min = (9 - zipcode) * 100000\<close>, \<open>val_max = 0\<close>,
  \<open>val_range = 135000\<close>.
\<close>

definition perturb :: "'g rng_ops \<Rightarrow> real \<Rightarrow> sample \<Rightarrow> 'g \<Rightarrow> sample \<times> 'g" where
  "perturb ops pert s g0 =
     (let (sal, g1) = perturb_value ops pert (salary s) 20000 150000 None g0;
          (com, g2) = (if commission s > 0
                       then perturb_value ops pert (commission s) 10000 75000 None g1
                       else (commission s, g1));
          (a, g3) = perturb_value ops pert (of_int (age s)) 20 80 None g2;
          (hv, g4) = perturb_value ops pert (hvalue s) (of_int (9 - zipcode s) * 100000) 0
                       (Some 135000) g3;
          (hy, g5) = perturb_value ops pert (of_int (hyears s)) 1 30 None g4;
          (lo, g6) = perturb_value ops pert (loan s) 0 500000 None g5
      in (s\<lparr> salary := sal, commission := com, age := np_round a, hvalue := hv,
             hyears := np_round hy, loan := lo \<rparr>, g6))"

subsection \<open>One step of the iterator, and drift\<close>

text \<open>One pass of the outer \<open>while True\<close> up to its \<open>yield x, y\<close>.\<close>

definition next_sample ::
  "'g rng_ops \<Rightarrow> 'g agrawal \<Rightarrow> (py_error + (sample \<times> int \<times> 'g agrawal)) option" where
  "next_sample ops st =
     (case rejection_loop ops (st\<lparr>sample_idx := sample_idx st + 1\<rparr>) of
        None \<Rightarrow> None
      | Some (Inl e) \<Rightarrow> Some (Inl e)
      | Some (Inr (cand, grp, st1)) \<Rightarrow>
          (case (if perturbation st1 > 0 then perturb ops (perturbation st1) cand (rng st1)
                 else (cand, rng st1)) of
             (x, g) \<Rightarrow> Some (Inr (x, grp, st1\<lparr>rng := g, current_sample := Some (x, grp)\<rparr>))))"

text \<open>Pulling \<open>n\<close> samples in a row from the iterator.\<close>

fun take_samples ::
  "'g rng_ops \<Rightarrow> nat \<Rightarrow> 'g agrawal \<Rightarrow> (py_error + ((sample \<times> int) list \<times> 'g agrawal)) option" where
  "take_samples ops 0 st = Some (Inr ([], st))"
| "take_samples ops (Suc n) st =
     (case next_sample ops st of
        None \<Rightarrow> None
      | Some (Inl e) \<Rightarrow> Some (Inl e)
      | Some (Inr (x, y, st1)) \<Rightarrow>
          (case take_samples ops n st1 of
             None \<Rightarrow> None
           | Some (Inl e) \<Rightarrow> Some (Inl e)
           | Some (Inr (xs, st2)) \<Rightarrow> Some (Inr ((x, y) # xs, st2))))"

text \<open>
  \<open>generate_drift\<close>: the \<open>while new_function == self.classification_function\<close> loop
  redraws without bound.
\<close>

partial_function (option) drift_loop ::
  "'g rng_ops \<Rightarrow> int \<Rightarrow> int \<Rightarrow> 'g \<Rightarrow> (int \<times> 'g) option" where
  "drift_loop ops cur new_function g =
     (if new_function = cur
      then (case rng_randint ops 10 g of (n, g') \<Rightarrow> drift_loop ops cur n g')
      else Some (new_function, g))"

declare rejection_loop.simps [code]
declare drift_loop.simps [code]

definition generate_drift :: "'g rng_ops \<Rightarrow> 'g agrawal \<Rightarrow> 'g agrawal option" where
  "generate_drift ops st =
     (case rng_randint ops 10 (rng st) of (n, g) \<Rightarrow>
        (case drift_loop ops (classification_function st) n g of
           None \<Rightarrow> None
         | Some (n', g') \<Rightarrow> Some (st\<lparr>classification_function := n', rng := g'\<rparr>)))"

section \<open>The naive Bayes posterior (river/tree/\_tree\_utils.py)\<close>

text \<open>
  A Python dict is an association list in insertion order whose keys are distinct;
  \<open>d[k] = v\<close> is \<open>AList.update k v d\<close>, which overwrites in place or appends. The
  feature record \<open>x\<close> is only read, so it is a map. An attribute observer is the
  function \<open>probability_of_attribute_value_given_class\<close> it answers with; each call is
  recorded, as the pair of the attribute and the class asked about, in a log kept
  beside \<open>votes\<close>. \<open>math.log\<close> raises \<open>ValueError\<close> outside the positive reals.
\<close>

datatype math_error = MathDomainError | KeyError

definition math_log :: "real \<Rightarrow> math_error + real" where
  "math_log v = (if v > 0 then Inr (ln v) else Inl MathDomainError)"

text \<open>The \<open>for att_idx in attribute_observers\<close> loop for one class (lines 44 to 52).\<close>

fun likelihood_loop ::
  "('a \<rightharpoonup> 'v) \<Rightarrow> ('a \<times> ('v \<Rightarrow> 'c \<Rightarrow> real)) list \<Rightarrow> 'c \<Rightarrow>
     ('c \<times> real) list \<times> ('a \<times> 'c) list \<Rightarrow> math_error + (('c \<times> real) list \<times> ('a \<times> 'c) list)" where
  "likelihood_loop x [] class_index (votes, queries) = Inr (votes, queries)"
| "likelihood_loop x ((att_idx, obs) # rest) class_index (votes, queries) =
     (case x att_idx of
        None \<Rightarrow> likelihood_loop x rest class_index (votes, queries)
      | Some v \<Rightarrow>
          (let tmp = obs v class_index in
           case map_of votes class_index of
             None \<Rightarrow> Inl KeyError
           | Some score \<Rightarrow>
               likelihood_loop x rest class_index
                 (AList.update class_index (score + (if tmp > 0 then ln tmp else 0)) votes,
                  queries @ [(att_idx, class_index)])))"

text \<open>
  The \<open>for class_index, class_weight in observed_class_distribution.items()\<close> loop. It is
  entered with a total weight that is not zero, so the division cannot fail.
\<close>

fun class_loop ::
  "('a \<rightharpoonup> 'v) \<Rightarrow> real \<Rightarrow> ('a \<times> ('v \<Rightarrow> 'c \<Rightarrow> real)) list \<Rightarrow> ('c \<times> real) list \<Rightarrow>
     ('c \<times> real) list \<times> ('a \<times> 'c) list \<Rightarrow> math_error + (('c \<times> real) list \<times> ('a \<times> 'c) list)" where
  "class_loop x total_weight attribute_observers [] acc = Inr acc"
| "class_loop x total_weight attribute_observers ((class_index, class_weight) # rest)
     (votes, queries) =
     (if class_weight > 0 then
        (case math_log (class_weight / total_weight) of
           Inl e \<Rightarrow> Inl e
         | Inr prior \<Rightarrow>
             (case (if attribute_observers \<noteq> []
                    then likelihood_loop x attribute_observers class_index
                           (AList.update class_index prior votes, queries)
                    else Inr (AList.update class_index prior votes, queries)) of
                Inl e \<Rightarrow> Inl e
              | Inr acc \<Rightarrow> class_loop x total_weight attribute_observers rest acc))
      else class_loop x total_weight attribute_observers rest
             (AList.update class_index 0 votes, queries))"

text \<open>
  Lines 55 to 62: the log-sum-exp normalisation. \<open>votes\<close> is not empty here, and the sum
  of exponentials is positive, so neither \<open>max\<close> nor \<open>math.log\<close> can raise. The keys
  of \<open>votes\<close> are distinct, so the last loop rewrites every entry once.
\<close>

definition normalise :: "('c \<times> real) list \<Rightarrow> ('c \<times> real) list" where
  "normalise votes =
     (let max_ll = Max (set (map snd votes));
          lse = max_ll + ln (sum_list (map (\<lambda>log_proba. exp (log_proba - max_ll)) (map snd votes)))
      in map (\<lambda>(class_index, v). (class_index, exp (v - lse))) votes)"

definition do_naive_bayes_prediction ::
  "('a \<rightharpoonup> 'v) \<Rightarrow> ('c \<times> real) list \<Rightarrow> ('a \<times> ('v \<Rightarrow> 'c \<Rightarrow> real)) list \<Rightarrow>
     math_error + ('c \<times> real) list option" where
  "do_naive_bayes_prediction x observed_class_distribution attribute_observers =
     (let total_weight = sum_list (map snd observed_class_distribution) in
      if observed_class_distribution = [] \<or> total_weight = 0 then Inr None
      else (case class_loop x total_weight attribute_observers observed_class_distribution
                   ([], []) of
              Inl e \<Rightarrow> Inl e
            | Inr (votes, queries) \<Rightarrow> Inr (Some (normalise votes))))"

section \<open>Auxiliary notions for the statements\<close>

text \<open>
  What the rejection loop guarantees about a result it returns: an error is the
  \<open>IndexError\<close> of the dispatch; an accepted candidate is a raw draw, its label is the
  value of the selected function, only the source and the toggle have changed, and under
  balancing the label is the one the toggle asked for.
\<close>

definition loop_post :: "'g rng_ops \<Rightarrow> 'g agrawal \<Rightarrow> py_error + (sample \<times> int \<times> 'g agrawal) \<Rightarrow> bool" where
  "loop_post ops st r =
     (case r of
        Inl e \<Rightarrow> e = IndexError \<and> \<not> (- 10 \<le> classification_function st \<and> classification_function st < 10)
      | Inr (cand, grp, st') \<Rightarrow>
          (\<exists>g. draw ops g = (cand, rng st')) \<and>
          classify (classification_function st) cand = Inr grp \<and>
          st' = st\<lparr>rng := rng st',
                   next_class_should_be_zero :=
                     (next_class_should_be_zero st \<noteq> balance_classes st)\<rparr> \<and>
          (balance_classes st \<longrightarrow> grp = (if next_class_should_be_zero st then 0 else 1)))"

text \<open>The labels 0, 1, 0, ... or 1, 0, 1, ... that a toggle starting at \<open>b\<close> asks for.\<close>

fun alternating :: "bool \<Rightarrow> nat \<Rightarrow> int list" where
  "alternating b 0 = []"
| "alternating b (Suc n) = (if b then 0 else 1) # alternating (\<not> b) n"

text \<open>Tapes and states for running the generator: one draw of age 20, one of age 50.\<close>

definition young :: "real list \<Rightarrow> real list" where
  "young rest = 1/2 # 0 # 1/2 # 1/2 # 1/2 # 1/2 # 1/2 # 1/2 # rest"

definition middle :: "real list \<Rightarrow> real list" where
  "middle rest = 1/2 # 1/2 # 1/2 # 1/2 # 1/2 # 1/2 # 1/2 # 1/2 # rest"

definition demo_sample :: "int \<Rightarrow> sample" where
  "demo_sample a =
     \<lparr>salary = 85000, commission = 0, age = a, elevel = 2, car = 10, zipcode = 4,
       hvalue = 500000, hyears = 16, loan = 250000\<rparr>"

definition demo_state ::
  "int \<Rightarrow> bool \<Rightarrow> real \<Rightarrow> int \<Rightarrow> bool \<Rightarrow> (sample \<times> int) option \<Rightarrow> real list \<Rightarrow>
     real list agrawal" where
  "demo_state cf bal pert idx toggle cur tape =
     \<lparr> classification_function = cf, balance_classes = bal, perturbation = pert,
       sample_idx = idx, next_class_should_be_zero = toggle, current_sample = cur,
       rng = tape \<rparr>"

text \<open>
  The \<open>k+1\<close>-th of a run of \<open>randint(n)\<close> calls that starts in state \<open>g\<close>: the value
  drawn and the state it leaves.
\<close>

fun nth_randint :: "'g rng_ops \<Rightarrow> int \<Rightarrow> nat \<Rightarrow> 'g \<Rightarrow> int \<times> 'g" where
  "nth_randint ops n 0 g = rng_randint ops n g"
| "nth_randint ops n (Suc k) g = nth_randint ops n k (snd (rng_randint ops n g))"

text \<open>
  What the redraw loop of \<open>generate_drift\<close> guarantees about a result it returns: the
  index differs from the current one, and it is either the index the loop was entered
  with or the first later draw that differs.
\<close>

definition drift_post :: "'g rng_ops \<Rightarrow> int \<Rightarrow> int \<Rightarrow> 'g \<Rightarrow> int \<times> 'g \<Rightarrow> bool" where
  "drift_post ops cur new_function g y \<longleftrightarrow>
     fst y \<noteq> cur \<and>
     (if new_function \<noteq> cur then y = (new_function, g)
      else (\<exists>k. y = nth_randint ops 10 k g \<and> (\<forall>j<k. fst (nth_randint ops 10 j g) = cur)))"

text \<open>
  The states a generator can be in after any number of samples pulled and drifts
  injected, starting from \<open>st0\<close>.
\<close>

inductive reachable :: "'g rng_ops \<Rightarrow> 'g agrawal \<Rightarrow> 'g agrawal \<Rightarrow> bool"
  for ops :: "'g rng_ops" and st0 :: "'g agrawal" where
  start: "reachable ops st0 st0"
| sample: "reachable ops st0 st \<Longrightarrow> next_sample ops st = Some (Inr (x, y, st')) \<Longrightarrow>
           reachable ops st0 st'"
| drift: "reachable ops st0 st \<Longrightarrow> generate_drift ops st = Some st' \<Longrightarrow> reachable ops st0 st'"

text \<open>
  The estimator in the words of its description: the evidence a class collects is the sum,
  over the observers whose attribute is present in the record, of \<open>ln p\<close> when the
  answer \<open>p\<close> is positive and of 0 otherwise; the observers asked for a class are those
  whose attribute is present; the score of a class of positive weight is the logarithm
  of its share of the total weight plus its evidence, and the score of any other class
  is 0.
\<close>

definition evidence :: "('a \<rightharpoonup> 'v) \<Rightarrow> ('a \<times> ('v \<Rightarrow> 'c \<Rightarrow> real)) list \<Rightarrow> 'c \<Rightarrow> real" where
  "evidence x attribute_observers c =
     sum_list (map (\<lambda>(a, obs). case x a of None \<Rightarrow> 0
                                | Some v \<Rightarrow> if obs v c > 0 then ln (obs v c) else 0)
                   attribute_observers)"

definition queried :: "('a \<rightharpoonup> 'v) \<Rightarrow> ('a \<times> ('v \<Rightarrow> 'c \<Rightarrow> real)) list \<Rightarrow> 'c \<Rightarrow> ('a \<times> 'c) list" where
  "queried x attribute_observers c =
     map (\<lambda>(a, obs). (a, c)) (filter (\<lambda>(a, obs). x a \<noteq> None) attribute_observers)"

definition spec_score ::
  "('a \<rightharpoonup> 'v) \<Rightarrow> real \<Rightarrow> ('a \<times> ('v \<Rightarrow> 'c \<Rightarrow> real)) list \<Rightarrow> 'c \<Rightarrow> real \<Rightarrow> real" where
  "spec_score x total_weight attribute_observers c w =
     (if w > 0 then ln (w / total_weight) + evidence x attribute_observers c else 0)"

definition softmax :: "('c \<times> real) list \<Rightarrow> ('c \<times> real) list" where
  "softmax votes =
     map (\<lambda>(c, s). (c, exp s / sum_list (map exp (map snd votes)))) votes"

text \<open>
  An example to run the estimator on: the record has attribute 0 only; two observers,
  for attributes 0 and 1, answer 1/2 for class 0 and 0 for any other class; classes 0
  and 2 have weight 2 and class 1 has weight 0.
\<close>

definition demo_record :: "nat \<rightharpoonup> nat" where
  "demo_record = [0 \<mapsto> 1]"

definition demo_observer :: "nat \<Rightarrow> nat \<Rightarrow> real" where
  "demo_observer v c = (if c = 0 then 1/2 else 0)"

definition demo_observers :: "(nat \<times> (nat \<Rightarrow> nat \<Rightarrow> real)) list" where
  "demo_observers = [(0, demo_observer), (1, demo_observer)]"

definition demo_prior :: "(nat \<times> real) list" where
  "demo_prior = [(0, 2), (1, 0), (2, 2)]"

subsection \<open>The raw draw in binary64 arithmetic\<close>

text \<open>
  Rounding a real to binary64, to the nearest value with a 53-bit significand and a tie
  to the even one. The exponent range is not bounded here: every value below stays far
  inside the range of binary64.
\<close>

definition fl64 :: "real \<Rightarrow> real" where
  "fl64 x =
     (if x = 0 then 0
      else (let e = \<lfloor>log 2 \<bar>x\<bar>\<rfloor>; q = 2 powr (of_int e - 52)
            in of_int (np_round (x / q)) * q))"

text \<open>
  The nine draws of lines 128 to 136 with the rounding of every floating-point operation
  written out: \<open>fl\<close> is applied to the result of each product and each sum of floats.
  \<open>(9 - zipcode) * 100000\<close> is a product of Python ints and is exact. With the identity
  for \<open>fl\<close> this is \<open>draw\<close>.
\<close>

definition draw_with :: "(real \<Rightarrow> real) \<Rightarrow> 'g rng_ops \<Rightarrow> 'g \<Rightarrow> sample \<times> 'g" where
  "draw_with fl ops g0 =
     (let (u1, g1) = rng_rand ops g0;
          sal = fl (20000 + fl (130000 * u1));
          (com, g2) = (if sal \<ge> 75000 then (0, g1)
                       else (let (u2, g) = rng_rand ops g1 in (fl (10000 + fl (75000 * u2)), g)));
          (a, g3) = rng_randint ops 61 g2;
          (el, g4) = rng_randint ops 5 g3;
          (c, g5) = rng_randint ops 20 g4;
          (z, g6) = rng_randint ops 9 g5;
          (u3, g7) = rng_rand ops g6;
          (hy, g8) = rng_randint ops 30 g7;
          (u4, g9) = rng_rand ops g8
      in (\<lparr> salary = sal, commission = com, age = 20 + a, elevel = el, car = c, zipcode = z,
            hvalue = fl (of_int ((9 - z) * 100000) * fl (0.5 + u3)), hyears = 1 + hy,
            loan = fl (u4 * 500000) \<rparr>, g9))"

definition draw_float :: "'g rng_ops \<Rightarrow> 'g \<Rightarrow> sample \<times> 'g" where
  "draw_float = draw_with fl64"

text \<open>
  \<open>rand()\<close> returns a binary64 number below 1, so at most \<open>1 - 2^-53\<close>, the largest
  of them.
\<close>

definition rand_is_binary64 :: "'g rng_ops \<Rightarrow> bool" where
  "rand_is_binary64 ops \<longleftrightarrow> (\<forall>g. fst (rng_rand ops g) \<le> 1 - 1 / 2 ^ 53)"

text \<open>The largest binary64 number below 1.\<close>

definition top_double :: real where
  "top_double = 1 - 1 / 2 ^ 53"

text \<open>The tape read as a source of binary64 numbers: a cell above \<open>1 - 2^-53\<close> reads as 0.\<close>

definition tape64_rng :: "real list rng_ops" where
  "tape64_rng =
     \<lparr> rng_rand = (\<lambda>g. case g of [] \<Rightarrow> (0, [])
                             | u # us \<Rightarrow> (if 0 \<le> u \<and> u \<le> 1 - 1 / 2 ^ 53 then u else 0, us)),
       rng_randint = rng_randint tape_rng \<rparr>"

subsection \<open>Sequences of drift draws\<close>

text \<open>
  The index \<open>generate_drift\<close> settles on, as a function of the values that the calls of
  \<open>randint(10)\<close> return, in order: the first one that is not the current index.
\<close>

fun first_other :: "int \<Rightarrow> int list \<Rightarrow> int option" where
  "first_other cur [] = None"
| "first_other cur (d # ds) = (if d = cur then first_other cur ds else Some d)"

text \<open>The values of the first \<open>n\<close> calls of \<open>randint(10)\<close> from state \<open>g\<close>.\<close>

definition draws :: "'g rng_ops \<Rightarrow> nat \<Rightarrow> 'g \<Rightarrow> int list" where
  "draws ops n g = map (\<lambda>k. fst (nth_randint ops 10 k g)) [0..<n]"

text \<open>\<open>1 + 10 + ... + 10^(n-1)\<close>, a ninth of \<open>10^n - 1\<close>.\<close>

fun hits :: "nat \<Rightarrow> nat" where
  "hits 0 = 0"
| "hits (Suc n) = hits n + 10 ^ n"

section \<open>Properties of the generator\<close>

subsection \<open>The pseudorandom source and the tape\<close>

lemma rng_rand_range: "rng_ok ops \<Longrightarrow> 0 \<le> fst (rng_rand ops g) \<and> fst (rng_rand ops g) < 1"
  by (simp add: rng_ok_def)

lemma rng_randint_range:
  "rng_ok ops \<Longrightarrow> 0 < n \<Longrightarrow> 0 \<le> fst (rng_randint ops n g) \<and> fst (rng_randint ops n g) < n"
  by (simp add: rng_ok_def)

lemma tape_cell_range: "0 \<le> fst (tape_cell g) \<and> fst (tape_cell g) < 1"
  by (simp add: tape_cell_def split: list.splits)

lemma tape_rng_ok: "rng_ok tape_rng"
proof -
  have "0 \<le> \<lfloor>fst (tape_cell g) * of_int n\<rfloor> \<and> \<lfloor>fst (tape_cell g) * of_int n\<rfloor> < n"
    if "0 < n" for n :: int and g
  proof -
    have u: "0 \<le> fst (tape_cell g)" "fst (tape_cell g) < 1"
      using tape_cell_range [of g] by simp_all
    have "0 \<le> fst (tape_cell g) * of_int n" using u that by simp
    moreover have "fst (tape_cell g) * of_int n < of_int n"
      using u that by simp
    ultimately show ?thesis by (simp add: floor_less_iff)
  qed
  then show ?thesis
    by (simp add: rng_ok_def tape_rng_def tape_cell_range)
qed

lemma tape_rand: "rng_rand tape_rng (u # us) = (if 0 \<le> u \<and> u < 1 then u else 0, us)"
  by (simp add: tape_rng_def tape_cell_def)

lemma tape_randint:
  "rng_randint tape_rng n (u # us) = (\<lfloor>(if 0 \<le> u \<and> u < 1 then u else 0) * of_int n\<rfloor>, us)"
  by (simp add: tape_rng_def tape_cell_def)

lemma tape_randint_Nil: "rng_randint tape_rng n [] = (0, [])"
  by (simp add: tape_rng_def tape_cell_def)

lemma draw_tape_high:
  "draw tape_rng (1/2 # 0 # 1/2 # 1/2 # 1/2 # 1/2 # 1/2 # 1/2 # rest) =
     (\<lparr>salary = 85000, commission = 0, age = 20, elevel = 2, car = 10, zipcode = 4,
       hvalue = 500000, hyears = 16, loan = 250000\<rparr>, rest)"
  by (simp add: draw_def tape_rand tape_randint)

lemma draw_tape_low:
  "draw tape_rng (1/4 # 1/5 # 1/2 # 1/2 # 1/2 # 1/2 # 1/2 # 1/2 # 1/2 # rest) =
     (\<lparr>salary = 52500, commission = 25000, age = 50, elevel = 2, car = 10, zipcode = 4,
       hvalue = 500000, hyears = 16, loan = 250000\<rparr>, rest)"
  by (simp add: draw_def tape_rand tape_randint)

subsection \<open>Ranges of the raw draws\<close>

lemma draw_in_range:
  assumes ok: "rng_ok ops" and d: "draw ops g = (s, g')"
  shows "20000 \<le> salary s \<and> salary s < 150000 \<and> 20 \<le> age s \<and> age s \<le> 80 \<and>
     0 \<le> elevel s \<and> elevel s < 5 \<and> 0 \<le> car s \<and> car s < 20 \<and>
     0 \<le> zipcode s \<and> zipcode s < 9 \<and> 1 \<le> hyears s \<and> hyears s \<le> 30 \<and>
     0 \<le> loan s \<and> loan s < 500000 \<and>
     (salary s \<ge> 75000 \<longrightarrow> commission s = 0) \<and>
     (salary s < 75000 \<longrightarrow> 10000 \<le> commission s \<and> commission s < 85000)"
proof -
  note r = rng_rand_range [OF ok] and i = rng_randint_range [OF ok]
  have s: "s = fst (draw ops g)" using d by simp
  have sal: "20000 \<le> salary s \<and> salary s < 150000"
    using r [of g] by (simp add: s draw_def Let_def split_beta)
  have i61: "0 \<le> fst (rng_randint ops 61 h) \<and> fst (rng_randint ops 61 h) \<le> 60" for h
    using i [of 61 h] by simp
  have i30: "0 \<le> fst (rng_randint ops 30 h) \<and> fst (rng_randint ops 30 h) \<le> 29" for h
    using i [of 30 h] by simp
  have a: "20 \<le> age s \<and> age s \<le> 80"
    by (simp add: s draw_def Let_def split_beta i61)
  have el: "0 \<le> elevel s \<and> elevel s < 5"
    by (simp add: s draw_def Let_def split_beta i [of 5])
  have c: "0 \<le> car s \<and> car s < 20"
    by (simp add: s draw_def Let_def split_beta i [of 20])
  have z: "0 \<le> zipcode s \<and> zipcode s < 9"
    by (simp add: s draw_def Let_def split_beta i [of 9])
  have hy: "1 \<le> hyears s \<and> hyears s \<le> 30"
    by (simp add: s draw_def Let_def split_beta i30)
  have lo: "0 \<le> loan s \<and> loan s < 500000"
    by (simp add: s draw_def Let_def split_beta r)
  have c0: "salary s \<ge> 75000 \<longrightarrow> commission s = 0"
    by (simp add: s draw_def Let_def split_beta)
  have c1: "salary s < 75000 \<longrightarrow> 10000 \<le> commission s \<and> commission s < 85000"
    using r [of "snd (rng_rand ops g)"] by (simp add: s draw_def Let_def split_beta)
  show ?thesis using sal a el c z hy lo c0 c1 by blast
qed

subsection \<open>The rejection loop and class balancing\<close>

lemma py_index_classification_functions:
  "py_index classification_functions cf = Inl e \<longleftrightarrow> e = IndexError \<and> \<not> (- 10 \<le> cf \<and> cf < 10)"
  by (auto simp add: py_index_def classification_functions_def)

lemma classify_error:
  "classify cf s = Inl e \<longleftrightarrow> e = IndexError \<and> \<not> (- 10 \<le> cf \<and> cf < 10)"
  using py_index_classification_functions [of cf e]
  by (auto simp add: classify_def split: sum.splits)

lemma classify_4:
  "classify 4 s = Inr (classification_function_4 (salary s) (commission s) (age s) (elevel s)
     (car s) (zipcode s) (hvalue s) (hyears s) (loan s))"
  by (simp add: classify_def py_index_def classification_functions_def)

lemma classify_0:
  "classify 0 s = Inr (classification_function_0 (salary s) (commission s) (age s) (elevel s)
     (car s) (zipcode s) (hvalue s) (hyears s) (loan s))"
  by (simp add: classify_def py_index_def classification_functions_def)

lemma rejection_loop_post:
  assumes "rejection_loop ops st = Some r"
  shows "loop_post ops st r"
proof (rule rejection_loop.raw_induct [where P = loop_post, OF _ assms], goal_cases)
  case (1 rl ops st r)
  obtain cand g where d: "draw ops (rng st) = (cand, g)" by (cases "draw ops (rng st)")
  show ?case
  proof (cases "classify (classification_function st) cand")
    case (Inl e)
    with 1(2) d have "r = Inl e" by simp
    with Inl show ?thesis by (simp add: loop_post_def classify_error)
  next
    case (Inr grp)
    show ?thesis
    proof (cases "balance_classes st")
      case False
      with 1(2) d Inr have "r = Inr (cand, grp, st\<lparr>rng := g\<rparr>)" by simp
      with False d Inr show ?thesis by (auto simp add: loop_post_def)
    next
      case True
      show ?thesis
      proof (cases "(next_class_should_be_zero st \<and> grp = 0) \<or>
                     (\<not> next_class_should_be_zero st \<and> grp = 1)")
        case acc: True
        with 1(2) d Inr True have
          "r = Inr (cand, grp, st\<lparr>rng := g, next_class_should_be_zero := \<not> next_class_should_be_zero st\<rparr>)"
          by simp
        with True d Inr acc show ?thesis by (auto simp add: loop_post_def)
      next
        case rej: False
        with 1(2) d Inr True have "rl ops (st\<lparr>rng := g\<rparr>) = Some r" by simp
        then have "loop_post ops (st\<lparr>rng := g\<rparr>) r" by (rule 1(1))
        then show ?thesis by (auto simp add: loop_post_def split: sum.splits)
      qed
    qed
  qed
qed

lemma rejection_loop_unbalanced:
  "\<not> balance_classes st \<Longrightarrow>
   rejection_loop ops st =
     (case draw ops (rng st) of (cand, g) \<Rightarrow>
        (case classify (classification_function st) cand of
           Inl e \<Rightarrow> Some (Inl e)
         | Inr grp \<Rightarrow> Some (Inr (cand, grp, st\<lparr>rng := g\<rparr>))))"
  by (subst rejection_loop.simps) (simp split: prod.splits sum.splits)

lemma next_sample_Inr:
  assumes "next_sample ops st = Some (Inr (x, y, st'))"
  shows "\<exists>cand g. classify (classification_function st) cand = Inr y \<and>
           (\<exists>g0. draw ops g0 = (cand, g)) \<and>
           (x, rng st') = (if perturbation st > 0 then perturb ops (perturbation st) cand g
                           else (cand, g)) \<and>
           st' = st\<lparr>sample_idx := sample_idx st + 1, rng := rng st',
                    next_class_should_be_zero :=
                      (next_class_should_be_zero st \<noteq> balance_classes st),
                    current_sample := Some (x, y)\<rparr> \<and>
           (balance_classes st \<longrightarrow> y = (if next_class_should_be_zero st then 0 else 1))"
proof -
  let ?st0 = "st\<lparr>sample_idx := sample_idx st + 1\<rparr>"
  from assms obtain cand grp st1 where
    rl: "rejection_loop ops ?st0 = Some (Inr (cand, grp, st1))"
    by (auto simp add: next_sample_def split: option.splits sum.splits)
  from rejection_loop_post [OF rl] obtain g0 where
    p: "draw ops g0 = (cand, rng st1)" "classify (classification_function st) cand = Inr grp"
       "st1 = ?st0\<lparr>rng := rng st1,
                next_class_should_be_zero := (next_class_should_be_zero st \<noteq> balance_classes st)\<rparr>"
       "balance_classes st \<longrightarrow> grp = (if next_class_should_be_zero st then 0 else 1)"
    by (auto simp add: loop_post_def)
  have pert: "perturbation st1 = perturbation st" by (subst p(3)) simp
  obtain x' g where
    xg: "(if perturbation st1 > 0 then perturb ops (perturbation st1) cand (rng st1)
          else (cand, rng st1)) = (x', g)"
    by (cases "if perturbation st1 > 0 then perturb ops (perturbation st1) cand (rng st1)
               else (cand, rng st1)")
  from assms rl xg have r: "x = x'" "y = grp"
    "st' = st1\<lparr>rng := g, current_sample := Some (x', grp)\<rparr>"
    by (auto simp add: next_sample_def)
  have g: "rng st' = g" by (simp add: r(3))
  have st': "st' = st\<lparr>sample_idx := sample_idx st + 1, rng := rng st',
                    next_class_should_be_zero :=
                      (next_class_should_be_zero st \<noteq> balance_classes st),
                    current_sample := Some (x, y)\<rparr>"
    unfolding g unfolding r by (subst p(3)) simp
  have xg': "(x, rng st') = (if perturbation st > 0 then perturb ops (perturbation st) cand (rng st1)
                           else (cand, rng st1))"
    using xg unfolding pert g r by simp
  from p(1) have d: "\<exists>g0. draw ops g0 = (cand, rng st1)" by blast
  from p(2) r(2) have c: "classify (classification_function st) cand = Inr y" by simp
  from p(4) r(2) have b: "balance_classes st \<longrightarrow> y = (if next_class_should_be_zero st then 0 else 1)"
    by simp
  from c d xg' st' b show ?thesis by blast
qed

lemma next_sample_Inl:
  assumes "next_sample ops st = Some (Inl e)"
  shows "e = IndexError \<and> \<not> (- 10 \<le> classification_function st \<and> classification_function st < 10)"
proof -
  let ?st0 = "st\<lparr>sample_idx := sample_idx st + 1\<rparr>"
  from assms have "rejection_loop ops ?st0 = Some (Inl e)"
    by (auto simp add: next_sample_def split: option.splits sum.splits prod.splits)
  from rejection_loop_post [OF this] show ?thesis by (simp add: loop_post_def)
qed

lemma next_sample_unbalanced:
  assumes "\<not> balance_classes st"
  shows "\<exists>r. next_sample ops st = Some r"
  using assms
  by (simp add: next_sample_def rejection_loop_unbalanced split: prod.splits sum.splits)

lemma take_samples_balanced:
  "balance_classes st \<Longrightarrow> take_samples ops n st = Some (Inr (xs, st')) \<Longrightarrow>
   map snd xs = alternating (next_class_should_be_zero st) n \<and> balance_classes st' \<and>
   next_class_should_be_zero st' = (next_class_should_be_zero st = even n)"
proof (induction n arbitrary: st xs)
  case 0
  then show ?case by simp
next
  case (Suc n)
  from Suc.prems(2) obtain x y st1 ys where
    ns: "next_sample ops st = Some (Inr (x, y, st1))" and
    ts: "take_samples ops n st1 = Some (Inr (ys, st'))" and
    xs: "xs = (x, y) # ys"
    by (auto split: option.splits sum.splits)
  from next_sample_Inr [OF ns] obtain g1 where
    eq: "st1 = st\<lparr>sample_idx := sample_idx st + 1, rng := g1,
                    next_class_should_be_zero :=
                      (next_class_should_be_zero st \<noteq> balance_classes st),
                    current_sample := Some (x, y)\<rparr>" and
    y: "balance_classes st \<longrightarrow> y = (if next_class_should_be_zero st then 0 else 1)"
    by blast
  have st1: "balance_classes st1" "next_class_should_be_zero st1 = (\<not> next_class_should_be_zero st)"
      "y = (if next_class_should_be_zero st then 0 else 1)"
    using Suc.prems(1) y by (simp_all add: eq)
  from Suc.IH [OF st1(1) ts] st1 xs show ?case by auto
qed

lemma length_alternating: "length (alternating b n) = n"
  by (induction n arbitrary: b) simp_all

lemma alternating_nth: "i < n \<Longrightarrow> alternating b n ! i = (if b = even i then 0 else 1)"
proof (induction n arbitrary: b i)
  case 0
  then show ?case by simp
next
  case (Suc n)
  then show ?case by (cases i) auto
qed

lemma alternating_count:
  "int (count_list (alternating b n) 0) - int (count_list (alternating b n) 1) =
     (if even n then 0 else if b then 1 else - 1)"
proof (induction n arbitrary: b)
  case 0
  then show ?case by simp
next
  case (Suc n)
  from Suc [of "\<not> b"] show ?case by (cases b) auto
qed

lemma take_samples_unbalanced:
  "\<not> balance_classes st \<Longrightarrow> take_samples ops n st = Some (Inr (xs, st')) \<Longrightarrow>
   \<not> balance_classes st' \<and> next_class_should_be_zero st' = next_class_should_be_zero st"
proof (induction n arbitrary: st xs)
  case 0
  then show ?case by simp
next
  case (Suc n)
  from Suc.prems(2) obtain x y st1 ys where
    ns: "next_sample ops st = Some (Inr (x, y, st1))" and
    ts: "take_samples ops n st1 = Some (Inr (ys, st'))"
    by (auto split: option.splits sum.splits)
  from next_sample_Inr [OF ns] obtain g1 where
    eq: "st1 = st\<lparr>sample_idx := sample_idx st + 1, rng := g1,
                    next_class_should_be_zero :=
                      (next_class_should_be_zero st \<noteq> balance_classes st),
                    current_sample := Some (x, y)\<rparr>"
    by blast
  have st1: "\<not> balance_classes st1" "next_class_should_be_zero st1 = next_class_should_be_zero st"
    using Suc.prems(1) by (simp_all add: eq)
  from Suc.IH [OF st1(1) ts] st1 show ?case by simp
qed

lemma draw_young: "draw tape_rng (young rest) = (demo_sample 20, rest)"
  by (simp add: young_def demo_sample_def draw_def tape_rand tape_randint)

lemma draw_middle: "draw tape_rng (middle rest) = (demo_sample 50, rest)"
  by (simp add: middle_def demo_sample_def draw_def tape_rand tape_randint)

lemma classify_0_age: "classify 0 s = Inr (if age s < 40 \<or> 60 \<le> age s then 1 else 0)"
  by (simp add: classify_0 classification_function_0_def py_int_def)

lemma age_demo_sample: "age (demo_sample a) = a"
  by (simp add: demo_sample_def)

lemma demo_first:
  "next_sample tape_rng (demo_state 0 True 0 0 False None (young rest)) =
     Some (Inr (demo_sample 20, 1, demo_state 0 True 0 1 True (Some (demo_sample 20, 1)) rest))"
  unfolding next_sample_def demo_state_def
  by (subst rejection_loop.simps) (simp add: draw_young classify_0_age age_demo_sample)

lemma demo_second:
  "next_sample tape_rng (demo_state 0 True 0 1 True c (young (middle rest))) =
     Some (Inr (demo_sample 50, 0, demo_state 0 True 0 2 False (Some (demo_sample 50, 0)) rest))"
  unfolding next_sample_def demo_state_def
  apply (subst rejection_loop.simps)
  apply (simp add: draw_young classify_0_age age_demo_sample)
  apply (subst rejection_loop.simps)
  apply (simp add: draw_middle classify_0_age age_demo_sample)
  done

lemma demo_take_two:
  "take_samples tape_rng 2 (demo_state 0 True 0 0 False None (young (young (middle [])))) =
     Some (Inr ([(demo_sample 20, 1), (demo_sample 50, 0)],
                demo_state 0 True 0 2 False (Some (demo_sample 50, 0)) []))"
  by (simp add: numeral_2_eq_2 demo_first demo_second)

lemma demo_unbalanced:
  "next_sample tape_rng (demo_state 0 False 0 0 False None (middle rest)) =
     Some (Inr (demo_sample 50, 0, demo_state 0 False 0 1 False (Some (demo_sample 50, 0)) rest))"
  unfolding next_sample_def demo_state_def
  by (subst rejection_loop.simps) (simp add: draw_middle classify_0_age age_demo_sample)

lemma demo_take_one:
  "take_samples tape_rng 1 (demo_state 0 False 0 0 False None (middle [])) =
     Some (Inr ([(demo_sample 50, 0)], demo_state 0 False 0 1 False (Some (demo_sample 50, 0)) []))"
  by (simp add: demo_unbalanced)

text \<open>
  Claim C2. With \<open>balance_classes\<close> true, for any selected function and any state of
  the random source, a sample that is accepted flips \<open>next_class_should_be_zero\<close> and
  carries the label the toggle asked for; so the labels of \<open>n\<close> samples pulled in a row
  alternate and the numbers of 0 labels and 1 labels differ by at most 1. With
  \<open>balance_classes\<close> false the loop returns after its first draw, whatever the label,
  and the toggle never changes.
\<close>

theorem balanced_labels_alternate:
  "(balance_classes st \<and> next_sample ops st = Some (Inr (x, y, st1)) \<longrightarrow>
      next_class_should_be_zero st1 = (\<not> next_class_should_be_zero st) \<and>
      y = (if next_class_should_be_zero st then 0 else 1)) \<and>
   (balance_classes st \<and> take_samples ops n st = Some (Inr (xs, st')) \<longrightarrow>
      length xs = n \<and>
      (\<forall>i<n. snd (xs ! i) = (if next_class_should_be_zero st = even i then 0 else 1)) \<and>
      next_class_should_be_zero st' = (next_class_should_be_zero st = even n) \<and>
      \<bar>int (count_list (map snd xs) 0) - int (count_list (map snd xs) 1)\<bar> \<le> 1) \<and>
   (\<not> balance_classes st \<longrightarrow>
      rejection_loop ops st =
        (case draw ops (rng st) of (cand, g) \<Rightarrow>
           (case classify (classification_function st) cand of
              Inl e \<Rightarrow> Some (Inl e)
            | Inr grp \<Rightarrow> Some (Inr (cand, grp, st\<lparr>rng := g\<rparr>)))) \<and>
      (\<exists>r. next_sample ops st = Some r) \<and>
      (take_samples ops n st = Some (Inr (xs, st')) \<longrightarrow>
         next_class_should_be_zero st' = next_class_should_be_zero st))"
proof (intro conjI impI)
  assume a: "balance_classes st \<and> next_sample ops st = Some (Inr (x, y, st1))"
  from next_sample_Inr [of ops st x y st1] a obtain g1 where
    eq: "st1 = st\<lparr>sample_idx := sample_idx st + 1, rng := g1,
                    next_class_should_be_zero :=
                      (next_class_should_be_zero st \<noteq> balance_classes st),
                    current_sample := Some (x, y)\<rparr>" and
    y: "y = (if next_class_should_be_zero st then 0 else 1)"
    by blast
  from a show "next_class_should_be_zero st1 = (\<not> next_class_should_be_zero st)"
    by (simp add: eq)
  from y show "y = (if next_class_should_be_zero st then 0 else 1)" .
next
  assume a: "balance_classes st \<and> take_samples ops n st = Some (Inr (xs, st'))"
  then have m: "map snd xs = alternating (next_class_should_be_zero st) n"
    and t: "next_class_should_be_zero st' = (next_class_should_be_zero st = even n)"
    using take_samples_balanced [of st ops n xs st'] by simp_all
  from m have l: "length (map snd xs) = n" by (simp add: length_alternating)
  then show "length xs = n" by simp
  show "\<forall>i<n. snd (xs ! i) = (if next_class_should_be_zero st = even i then 0 else 1)"
  proof (intro allI impI)
    fix i assume i: "i < n"
    with l have "snd (xs ! i) = map snd xs ! i" by simp
    with m i show "snd (xs ! i) = (if next_class_should_be_zero st = even i then 0 else 1)"
      by (simp add: alternating_nth)
  qed
  from t show "next_class_should_be_zero st' = (next_class_should_be_zero st = even n)" .
  show "\<bar>int (count_list (map snd xs) 0) - int (count_list (map snd xs) 1)\<bar> \<le> 1"
    unfolding m alternating_count by simp
next
  assume "\<not> balance_classes st"
  then show "rejection_loop ops st =
        (case draw ops (rng st) of (cand, g) \<Rightarrow>
           (case classify (classification_function st) cand of
              Inl e \<Rightarrow> Some (Inl e)
            | Inr grp \<Rightarrow> Some (Inr (cand, grp, st\<lparr>rng := g\<rparr>))))"
    by (rule rejection_loop_unbalanced)
next
  assume "\<not> balance_classes st"
  then show "\<exists>r. next_sample ops st = Some r" by (rule next_sample_unbalanced)
next
  assume "\<not> balance_classes st" and "take_samples ops n st = Some (Inr (xs, st'))"
  then show "next_class_should_be_zero st' = next_class_should_be_zero st"
    using take_samples_unbalanced by blast
qed

theorem balanced_labels_alternate_witness:
  "take_samples tape_rng 2 (demo_state 0 True 0 0 False None (young (young (middle [])))) =
     Some (Inr ([(demo_sample 20, 1), (demo_sample 50, 0)],
                demo_state 0 True 0 2 False (Some (demo_sample 50, 0)) [])) \<and>
   next_sample tape_rng (demo_state 0 True 0 0 False None (young (young (middle [])))) =
     Some (Inr (demo_sample 20, 1,
                demo_state 0 True 0 1 True (Some (demo_sample 20, 1)) (young (middle [])))) \<and>
   take_samples tape_rng 1 (demo_state 0 False 0 0 False None (middle [])) =
     Some (Inr ([(demo_sample 50, 0)], demo_state 0 False 0 1 False (Some (demo_sample 50, 0)) [])) \<and>
   \<bar>int (count_list (map snd [(demo_sample 20, 1 :: int), (demo_sample 50, 0)]) 0) -
    int (count_list (map snd [(demo_sample 20, 1 :: int), (demo_sample 50, 0)]) 1)\<bar> \<le> 1 \<and>
   (\<exists>r. next_sample tape_rng (demo_state 0 False 0 0 False None (middle [])) = Some r)"
  using balanced_labels_alternate [of "demo_state 0 True 0 0 False None (young (young (middle [])))"
      tape_rng "demo_sample 20" 1 "demo_state 0 True 0 1 True (Some (demo_sample 20, 1)) (young (middle []))"
      2 "[(demo_sample 20, 1), (demo_sample 50, 0)]"
      "demo_state 0 True 0 2 False (Some (demo_sample 50, 0)) []"]
    balanced_labels_alternate [of "demo_state 0 False 0 0 False None (middle [])"
      tape_rng "demo_sample 50" 0 "demo_state 0 False 0 1 False (Some (demo_sample 50, 0)) []"
      1 "[(demo_sample 50, 0)]"
      "demo_state 0 False 0 1 False (Some (demo_sample 50, 0)) []"]
  by (simp add: demo_take_two demo_first demo_take_one demo_unbalanced)

subsection \<open>Classification function 4\<close>

lemma function_4_zero:
  "40 \<le> a \<Longrightarrow> a < 60 \<Longrightarrow> sal < 200000 \<Longrightarrow>
   classification_function_4 sal com a el c z hv hy lo = 0"
  by (simp add: classification_function_4_def py_int_def)

lemma demo_state_sel:
  "classification_function (demo_state cf bal pert idx toggle cur tape) = cf"
  "balance_classes (demo_state cf bal pert idx toggle cur tape) = bal"
  "perturbation (demo_state cf bal pert idx toggle cur tape) = pert"
  "sample_idx (demo_state cf bal pert idx toggle cur tape) = idx"
  "next_class_should_be_zero (demo_state cf bal pert idx toggle cur tape) = toggle"
  "current_sample (demo_state cf bal pert idx toggle cur tape) = cur"
  "rng (demo_state cf bal pert idx toggle cur tape) = tape"
  by (simp_all add: demo_state_def)

text \<open>
  Claim C6. For an age from 40 up to 59, classification function 4 returns 0 whenever
  the salary is below 200000, whatever the loan: both inner tests of that bracket ask for
  a salary of at least 200000. A raw draw has a salary below 150000, so every candidate
  in that age bracket is labelled 0 by function 4, in the dispatch and in the rejection
  loop.
\<close>

theorem function_4_middle_bracket:
  "(40 \<le> a \<and> a < 60 \<and> sal < 200000 \<longrightarrow>
      classification_function_4 sal com a el c z hv hy lo = 0) \<and>
   (rng_ok ops \<and> draw ops g = (s, g') \<and> 40 \<le> age s \<and> age s < 60 \<longrightarrow> classify 4 s = Inr 0) \<and>
   (rng_ok ops \<and> classification_function st = 4 \<and>
    rejection_loop ops st = Some (Inr (cand, grp, st')) \<and> 40 \<le> age cand \<and> age cand < 60 \<longrightarrow>
      grp = 0)"
proof (intro conjI impI)
  assume "40 \<le> a \<and> a < 60 \<and> sal < 200000"
  then show "classification_function_4 sal com a el c z hv hy lo = 0"
    by (simp add: function_4_zero)
next
  assume a: "rng_ok ops \<and> draw ops g = (s, g') \<and> 40 \<le> age s \<and> age s < 60"
  then have "salary s < 150000" using draw_in_range [of ops g s g'] by simp
  with a show "classify 4 s = Inr 0"
    by (simp add: classify_4 function_4_zero)
next
  assume a: "rng_ok ops \<and> classification_function st = 4 \<and>
    rejection_loop ops st = Some (Inr (cand, grp, st')) \<and> 40 \<le> age cand \<and> age cand < 60"
  then have "loop_post ops st (Inr (cand, grp, st'))" by (simp add: rejection_loop_post)
  with a obtain g0 where d: "draw ops g0 = (cand, rng st')" and c: "classify 4 cand = Inr grp"
    by (auto simp add: loop_post_def)
  from a d have "salary cand < 150000" using draw_in_range [of ops g0 cand "rng st'"] by simp
  with a c show "grp = 0"
    by (simp add: classify_4 function_4_zero)
qed

lemma demo_function_4:
  "rejection_loop tape_rng (demo_state 4 False 0 0 False None (middle rest)) =
     Some (Inr (demo_sample 50, 0, demo_state 4 False 0 0 False None rest))"
  unfolding demo_state_def
  by (subst rejection_loop.simps)
     (simp add: draw_middle classify_4 classification_function_4_def py_int_def demo_sample_def)

theorem function_4_middle_bracket_witness:
  "classification_function_4 85000 0 50 2 10 4 500000 16 250000 = 0 \<and>
   draw tape_rng (middle []) = (demo_sample 50, []) \<and> age (demo_sample 50) = 50 \<and>
   classify 4 (demo_sample 50) = Inr 0 \<and>
   rejection_loop tape_rng (demo_state 4 False 0 0 False None (middle [])) =
     Some (Inr (demo_sample 50, 0, demo_state 4 False 0 0 False None []))"
  using function_4_middle_bracket [of 50 85000 0 2 10 4 500000 16 250000 tape_rng "middle []"
      "demo_sample 50" "[]" "demo_state 4 False 0 0 False None (middle [])" "demo_sample 50" 0
      "demo_state 4 False 0 0 False None []"]
  by (simp add: tape_rng_ok draw_middle age_demo_sample demo_function_4 demo_state_sel)

subsection \<open>Drift\<close>

lemma nth_randint_range:
  "rng_ok ops \<Longrightarrow> 0 < n \<Longrightarrow>
   0 \<le> fst (nth_randint ops n k g) \<and> fst (nth_randint ops n k g) < n"
  by (induction k arbitrary: g) (simp_all add: rng_randint_range)

lemma drift_loop_post:
  assumes "drift_loop ops cur new_function g = Some y"
  shows "drift_post ops cur new_function g y"
proof (rule drift_loop.raw_induct [where P = drift_post, OF _ assms], goal_cases)
  case (1 dl ops cur new_function g y)
  show ?case
  proof (cases "new_function = cur")
    case False
    with 1(2) show ?thesis by (auto simp add: drift_post_def)
  next
    case True
    obtain n g' where r: "rng_randint ops 10 g = (n, g')" by (cases "rng_randint ops 10 g")
    with 1(2) True have "dl ops cur n g' = Some y" by simp
    then have p: "drift_post ops cur n g' y" by (rule 1(1))
    show ?thesis
    proof (cases "n = cur")
      case False
      with p r have "y = nth_randint ops 10 0 g" "fst y \<noteq> cur"
        by (simp_all add: drift_post_def)
      with True show ?thesis unfolding drift_post_def by (metis (full_types) not_less_zero)
    next
      case n: True
      with p obtain k where k: "y = nth_randint ops 10 k g'"
        "\<forall>j<k. fst (nth_randint ops 10 j g') = cur" "fst y \<noteq> cur"
        by (auto simp add: drift_post_def)
      from k(1) r have y: "y = nth_randint ops 10 (Suc k) g" by simp
      have "fst (nth_randint ops 10 j g) = cur" if "j < Suc k" for j
      proof (cases j)
        case 0
        with r n show ?thesis by simp
      next
        case (Suc i)
        with that k(2) r show ?thesis by simp
      qed
      then have "\<forall>j<Suc k. fst (nth_randint ops 10 j g) = cur" by blast
      with y have "\<exists>ka. y = nth_randint ops 10 ka g \<and>
          (\<forall>j<ka. fst (nth_randint ops 10 j g) = cur)" by blast
      with k(3) True show ?thesis by (simp add: drift_post_def)
    qed
  qed
qed

lemma drift_loop_first:
  "fst (nth_randint ops 10 k g) \<noteq> cur \<Longrightarrow> \<forall>j<k. fst (nth_randint ops 10 j g) = cur \<Longrightarrow>
   drift_loop ops cur (fst (rng_randint ops 10 g)) (snd (rng_randint ops 10 g)) =
     Some (nth_randint ops 10 k g)"
proof (induction k arbitrary: g)
  case 0
  then show ?case by (subst drift_loop.simps) simp
next
  case (Suc k)
  let ?g = "snd (rng_randint ops 10 g)"
  from Suc.prems(2) have h: "fst (rng_randint ops 10 g) = cur"
    by (metis nth_randint.simps(1) zero_less_Suc)
  have "\<forall>j<k. fst (nth_randint ops 10 j ?g) = cur"
  proof (intro allI impI)
    fix j assume "j < k"
    then have "Suc j < Suc k" by simp
    with Suc.prems(2) have "fst (nth_randint ops 10 (Suc j) g) = cur" by blast
    then show "fst (nth_randint ops 10 j ?g) = cur" by simp
  qed
  moreover from Suc.prems(1) have "fst (nth_randint ops 10 k ?g) \<noteq> cur" by simp
  ultimately have "drift_loop ops cur (fst (rng_randint ops 10 ?g)) (snd (rng_randint ops 10 ?g)) =
     Some (nth_randint ops 10 k ?g)" by (rule Suc.IH [rotated])
  with h show ?case by (subst drift_loop.simps) (simp add: split_beta)
qed

lemma generate_drift_iff:
  "generate_drift ops st = Some st' \<longleftrightarrow>
     (\<exists>k. fst (nth_randint ops 10 k (rng st)) \<noteq> classification_function st \<and>
          (\<forall>j<k. fst (nth_randint ops 10 j (rng st)) = classification_function st) \<and>
          st' = st\<lparr>classification_function := fst (nth_randint ops 10 k (rng st)),
                   rng := snd (nth_randint ops 10 k (rng st))\<rparr>)"
    (is "?l \<longleftrightarrow> ?r")
proof
  assume ?l
  let ?n = "fst (rng_randint ops 10 (rng st))" and ?g = "snd (rng_randint ops 10 (rng st))"
  from \<open>?l\<close> obtain y where
    dl: "drift_loop ops (classification_function st) ?n ?g = Some y" and
    st': "st' = st\<lparr>classification_function := fst y, rng := snd y\<rparr>"
    by (auto simp add: generate_drift_def split_beta split: option.splits)
  from drift_loop_post [OF dl] have ne: "fst y \<noteq> classification_function st" and
    c: "if ?n \<noteq> classification_function st then y = (?n, ?g)
        else (\<exists>k. y = nth_randint ops 10 k ?g \<and>
                (\<forall>j<k. fst (nth_randint ops 10 j ?g) = classification_function st))"
    by (simp_all add: drift_post_def)
  show ?r
  proof (cases "?n = classification_function st")
    case False
    with c have "y = nth_randint ops 10 0 (rng st)" by simp
    with ne st' show ?thesis by (metis not_less_zero)
  next
    case True
    with c obtain k where k: "y = nth_randint ops 10 k ?g"
      "\<forall>j<k. fst (nth_randint ops 10 j ?g) = classification_function st" by auto
    have "fst (nth_randint ops 10 j (rng st)) = classification_function st" if "j < Suc k" for j
    proof (cases j)
      case 0
      with True show ?thesis by simp
    next
      case (Suc i)
      with that k(2) show ?thesis by simp
    qed
    moreover from k(1) have "y = nth_randint ops 10 (Suc k) (rng st)" by simp
    ultimately show ?thesis using ne st' by blast
  qed
next
  assume ?r
  then obtain k where k: "fst (nth_randint ops 10 k (rng st)) \<noteq> classification_function st"
    "\<forall>j<k. fst (nth_randint ops 10 j (rng st)) = classification_function st"
    "st' = st\<lparr>classification_function := fst (nth_randint ops 10 k (rng st)),
                   rng := snd (nth_randint ops 10 k (rng st))\<rparr>" by blast
  from drift_loop_first [OF k(1) k(2)] k(3) show ?l
    by (simp add: generate_drift_def split_beta)
qed

lemma demo_drift:
  "generate_drift tape_rng (demo_state 0 False 0 0 False None (0 # 1/2 # rest)) =
     Some (demo_state 5 False 0 0 False None rest)"
  unfolding generate_drift_def demo_state_def
  apply (simp add: tape_randint)
  apply (subst drift_loop.simps)
  apply (simp add: tape_randint)
  apply (subst drift_loop.simps)
  apply simp
  done

subsection \<open>Construction and the errors of a run\<close>

lemma init_Inl:
  "init cf seed bal pert = Inl e \<longleftrightarrow>
     e = ValueError \<and> (\<not> (0 \<le> cf \<and> cf < 10) \<or> \<not> (0 \<le> pert \<and> pert \<le> 1))"
  by (auto simp add: init_def)

lemma init_Inr:
  "init cf seed bal pert = Inr st \<longleftrightarrow>
     0 \<le> cf \<and> cf < 10 \<and> 0 \<le> pert \<and> pert \<le> 1 \<and>
     st = \<lparr> classification_function = cf, balance_classes = bal, perturbation = pert,
            sample_idx = 0, next_class_should_be_zero = False, current_sample = None,
            rng = seed \<rparr>"
  by (auto simp add: init_def)

lemma generate_drift_range:
  assumes "rng_ok ops" and "generate_drift ops st = Some st'"
  shows "0 \<le> classification_function st' \<and> classification_function st' < 10 \<and>
         perturbation st' = perturbation st \<and> balance_classes st' = balance_classes st"
proof -
  from assms(2) obtain k where k:
    "st' = st\<lparr>classification_function := fst (nth_randint ops 10 k (rng st)),
                   rng := snd (nth_randint ops 10 k (rng st))\<rparr>"
    unfolding generate_drift_iff by blast
  from assms(1) have
    "0 \<le> fst (nth_randint ops 10 k (rng st)) \<and> fst (nth_randint ops 10 k (rng st)) < 10"
    by (simp add: nth_randint_range)
  then show ?thesis by (simp add: k)
qed

lemma reachable_invariant:
  assumes "rng_ok ops" and "reachable ops st0 st"
    and "0 \<le> classification_function st0 \<and> classification_function st0 < 10"
  shows "0 \<le> classification_function st \<and> classification_function st < 10 \<and>
         perturbation st = perturbation st0 \<and> balance_classes st = balance_classes st0"
  using assms(2)
proof (induction rule: reachable.induct)
  case start
  from assms(3) show ?case by simp
next
  case (sample st x y st')
  from next_sample_Inr [OF sample.hyps(2)] obtain g1 where
    eq: "st' = st\<lparr>sample_idx := sample_idx st + 1, rng := g1,
                    next_class_should_be_zero :=
                      (next_class_should_be_zero st \<noteq> balance_classes st),
                    current_sample := Some (x, y)\<rparr>"
    by blast
  from sample.IH show ?case by (simp add: eq)
next
  case (drift st st')
  from generate_drift_range [OF assms(1) drift.hyps(2)] drift.IH show ?case by simp
qed

lemma demo_young_unbalanced:
  "next_sample tape_rng (demo_state 0 False 0 0 False None (young rest)) =
     Some (Inr (demo_sample 20, 1, demo_state 0 False 0 1 False (Some (demo_sample 20, 1)) rest))"
  unfolding next_sample_def demo_state_def
  by (subst rejection_loop.simps) (simp add: draw_young classify_0_age age_demo_sample)

lemma demo_drift_any:
  "generate_drift tape_rng (demo_state 0 bal pert idx toggle cur (0 # 1/2 # rest)) =
     Some (demo_state 5 bal pert idx toggle cur rest)"
  unfolding generate_drift_def demo_state_def
  apply (simp add: tape_randint)
  apply (subst drift_loop.simps)
  apply (simp add: tape_randint)
  apply (subst drift_loop.simps)
  apply simp
  done

lemma demo_init:
  "init 0 tape False 0 = Inr (demo_state 0 False 0 0 False None tape)"
  by (simp add: init_def demo_state_def)

lemma demo_reachable:
  "reachable tape_rng (demo_state 0 False 0 0 False None (young [0, 1/2]))
     (demo_state 5 False 0 1 False (Some (demo_sample 20, 1)) [])"
proof -
  have "reachable tape_rng (demo_state 0 False 0 0 False None (young [0, 1/2]))
     (demo_state 0 False 0 1 False (Some (demo_sample 20, 1)) [0, 1/2])"
    by (rule reachable.sample [OF reachable.start demo_young_unbalanced])
  then show ?thesis by (rule reachable.drift [OF _ demo_drift_any])
qed

text \<open>
  Claim C10. The constructor fails, with \<open>ValueError\<close>, exactly when the
  classification-function index is outside 0..9 or the perturbation is outside [0, 1].
  Once it has succeeded, no later pull of a sample raises \<open>ValueError\<close>, whatever
  samples and drifts came before; with a random source that keeps its contract the index
  stays in 0..9, the perturbation stays as given, and a pull raises no error at all.
  \<open>generate_drift\<close> has no raising operation, so its model has no error result.
\<close>

theorem construction_is_the_only_value_error:
  "(init cf seed bal pert = Inl ValueError \<longleftrightarrow>
      \<not> (0 \<le> cf \<and> cf < 10) \<or> \<not> (0 \<le> pert \<and> pert \<le> 1)) \<and>
   (init cf seed bal pert = Inr st0 \<and> reachable ops st0 st \<longrightarrow>
      next_sample ops st \<noteq> Some (Inl ValueError)) \<and>
   (init cf seed bal pert = Inr st0 \<and> rng_ok ops \<and> reachable ops st0 st \<longrightarrow>
      (\<forall>e. next_sample ops st \<noteq> Some (Inl e)) \<and>
      0 \<le> classification_function st \<and> classification_function st < 10 \<and>
      perturbation st = pert \<and> 0 \<le> pert \<and> pert \<le> 1)"
proof (intro conjI impI)
  show "init cf seed bal pert = Inl ValueError \<longleftrightarrow>
      \<not> (0 \<le> cf \<and> cf < 10) \<or> \<not> (0 \<le> pert \<and> pert \<le> 1)"
    by (simp add: init_Inl)
next
  show "next_sample ops st \<noteq> Some (Inl ValueError)"
    using next_sample_Inl [of ops st ValueError] by auto
next
  assume a: "init cf seed bal pert = Inr st0 \<and> rng_ok ops \<and> reachable ops st0 st"
  then have i: "0 \<le> cf" "cf < 10" "0 \<le> pert" "pert \<le> 1"
    "classification_function st0 = cf" "perturbation st0 = pert"
    by (simp_all add: init_Inr)
  from a i have inv: "0 \<le> classification_function st \<and> classification_function st < 10 \<and>
         perturbation st = perturbation st0 \<and> balance_classes st = balance_classes st0"
    using reachable_invariant [of ops st0 st] by simp
  show "\<forall>e. next_sample ops st \<noteq> Some (Inl e)"
    using next_sample_Inl [of ops st] inv by auto
  from inv i show "0 \<le> classification_function st" "classification_function st < 10"
    "perturbation st = pert" "0 \<le> pert" "pert \<le> 1" by simp_all
qed

theorem construction_is_the_only_value_error_witness:
  "init 10 [] False 0 = (Inl ValueError :: py_error + real list agrawal) \<and>
   init 0 [] False 2 = (Inl ValueError :: py_error + real list agrawal) \<and>
   init 0 (young [0, 1/2]) False 0 = Inr (demo_state 0 False 0 0 False None (young [0, 1/2])) \<and>
   rng_ok tape_rng \<and>
   reachable tape_rng (demo_state 0 False 0 0 False None (young [0, 1/2]))
     (demo_state 5 False 0 1 False (Some (demo_sample 20, 1)) []) \<and>
   (\<forall>e. next_sample tape_rng (demo_state 5 False 0 1 False (Some (demo_sample 20, 1)) []) \<noteq>
         Some (Inl e))"
  using construction_is_the_only_value_error [of 10 "[]" False 0 "demo_state 0 False 0 0 False None []" tape_rng
      "demo_state 0 False 0 0 False None []"]
    construction_is_the_only_value_error [of 0 "[]" False 2 "demo_state 0 False 0 0 False None []" tape_rng
      "demo_state 0 False 0 0 False None []"]
    construction_is_the_only_value_error [of 0 "young [0, 1/2]" False 0
      "demo_state 0 False 0 0 False None (young [0, 1/2])" tape_rng
      "demo_state 5 False 0 1 False (Some (demo_sample 20, 1)) []"]
  by (simp add: demo_init demo_reachable tape_rng_ok)

subsection \<open>Perturbation\<close>

lemma perturb_value_clamped:
  "val_min \<le> val_max \<Longrightarrow>
   val_min \<le> fst (perturb_value ops pert val val_min val_max val_range g) \<and>
   fst (perturb_value ops pert val val_min val_max val_range g) \<le> val_max"
  by (simp add: perturb_value_def Let_def split_beta)

lemma perturb_value_inverted:
  "val_max < val_min \<Longrightarrow>
   fst (perturb_value ops pert val val_min val_max val_range g) = val_min \<or>
   fst (perturb_value ops pert val val_min val_max val_range g) = val_max"
  by (simp add: perturb_value_def Let_def split_beta)

lemma np_round_range:
  assumes "of_int lo \<le> x" and "x \<le> of_int hi"
  shows "lo \<le> np_round x \<and> np_round x \<le> hi"
proof -
  from assms(1) have l: "lo \<le> \<lfloor>x\<rfloor>" by (simp add: le_floor_iff)
  from assms(2) have h: "\<lfloor>x\<rfloor> \<le> hi" by (simp add: floor_le_iff)
  have "\<lfloor>x\<rfloor> + 1 \<le> hi" if "x - of_int \<lfloor>x\<rfloor> \<ge> 1/2"
  proof -
    from that have "of_int \<lfloor>x\<rfloor> < x" by simp
    with assms(2) have "of_int \<lfloor>x\<rfloor> < (of_int hi :: real)" by simp
    then have "\<lfloor>x\<rfloor> < hi" by simp
    then show ?thesis by simp
  qed
  with l h show ?thesis by (auto simp add: np_round_def Let_def)
qed

text \<open>
  After the noise step every field but \<open>hvalue\<close> lies in the interval its call clamps
  to. The \<open>hvalue\<close> call passes \<open>val_min = (9 - zipcode) * 100000\<close> and \<open>val_max = 0\<close>,
  an empty interval for every zipcode a draw can produce, so the result is one of these
  two bounds and never the perturbed value.
\<close>

lemma perturb_fields:
  assumes "perturb ops pert s g = (x, g')"
  shows "20000 \<le> salary x \<and> salary x \<le> 150000"
    and "commission s > 0 \<longrightarrow> 10000 \<le> commission x \<and> commission x \<le> 75000"
    and "\<not> commission s > 0 \<longrightarrow> commission x = commission s"
    and "20 \<le> age x \<and> age x \<le> 80"
    and "1 \<le> hyears x \<and> hyears x \<le> 30"
    and "0 \<le> loan x \<and> loan x \<le> 500000"
    and "zipcode s < 9 \<longrightarrow> hvalue x = of_int (9 - zipcode s) * 100000 \<or> hvalue x = 0"
    and "elevel x = elevel s \<and> car x = car s \<and> zipcode x = zipcode s"
proof -
  have x: "x = fst (perturb ops pert s g)" using assms by simp
  note c = perturb_value_clamped
  show "20000 \<le> salary x \<and> salary x \<le> 150000"
    unfolding x perturb_def Let_def split_beta by (simp add: c)
  show "commission s > 0 \<longrightarrow> 10000 \<le> commission x \<and> commission x \<le> 75000"
    unfolding x perturb_def Let_def split_beta by (simp add: c)
  show "\<not> commission s > 0 \<longrightarrow> commission x = commission s"
    unfolding x perturb_def Let_def split_beta by simp
  have "20 \<le> np_round (fst (perturb_value ops pert v 20 80 None h)) \<and>
        np_round (fst (perturb_value ops pert v 20 80 None h)) \<le> 80" for v h
    by (rule np_round_range) (simp_all add: c)
  then show "20 \<le> age x \<and> age x \<le> 80"
    unfolding x perturb_def Let_def split_beta by simp
  have "1 \<le> np_round (fst (perturb_value ops pert v 1 30 None h)) \<and>
        np_round (fst (perturb_value ops pert v 1 30 None h)) \<le> 30" for v h
    by (rule np_round_range) (simp_all add: c)
  then show "1 \<le> hyears x \<and> hyears x \<le> 30"
    unfolding x perturb_def Let_def split_beta by simp
  show "0 \<le> loan x \<and> loan x \<le> 500000"
    unfolding x perturb_def Let_def split_beta by (simp add: c)
  show "zipcode s < 9 \<longrightarrow> hvalue x = of_int (9 - zipcode s) * 100000 \<or> hvalue x = 0"
  proof
    assume "zipcode s < 9"
    then have pos: "(0::real) < of_int (9 - zipcode s) * 100000" by simp
    define h where "h = snd (perturb_value ops pert (of_int (age s)) 20 80 None
        (snd (if commission s > 0
              then perturb_value ops pert (commission s) 10000 75000 None
                     (snd (perturb_value ops pert (salary s) 20000 150000 None g))
              else (commission s, snd (perturb_value ops pert (salary s) 20000 150000 None g)))))"
    have "hvalue x = fst (perturb_value ops pert (hvalue s) (of_int (9 - zipcode s) * 100000) 0
        (Some 135000) h)"
      unfolding x perturb_def Let_def split_beta h_def by simp
    with perturb_value_inverted [OF pos, of ops pert "hvalue s" "Some 135000" h]
    show "hvalue x = of_int (9 - zipcode s) * 100000 \<or> hvalue x = 0" by simp
  qed
  show "elevel x = elevel s \<and> car x = car s \<and> zipcode x = zipcode s"
    unfolding x perturb_def Let_def split_beta by simp
qed

lemma np_round_of_int: "np_round (of_int n) = n"
  by (simp add: np_round_def)

lemma perturb_demo_sample:
  "perturb tape_rng (1/2) (demo_sample 20) (1/2 # 1/2 # 1/2 # 1/2 # 1/2 # rest) =
     ((demo_sample 20)\<lparr>hvalue := 0\<rparr>, rest)"
  using np_round_of_int [of 20] np_round_of_int [of 16]
  by (simp add: perturb_def perturb_value_def tape_rand demo_sample_def)

text \<open>
  Claim C1 fails on the code for \<open>hvalue\<close>. A run with perturbation 1/2: the candidate has
  zipcode 4 and \<open>hvalue = 500000\<close>, inside its range from 250000 to 750000; every noise
  draw is 1/2, so no noise at all is added; still the sample comes out with
  \<open>hvalue = 0\<close>, because the value is not below \<open>val_min = 500000\<close> and is above
  \<open>val_max = 0\<close>. The other five fields keep their values.
\<close>

theorem perturbed_hvalue_is_set_to_zero:
  "draw tape_rng (young [1/2, 1/2, 1/2, 1/2, 1/2]) = (demo_sample 20, [1/2, 1/2, 1/2, 1/2, 1/2]) \<and>
   zipcode (demo_sample 20) = 4 \<and> hvalue (demo_sample 20) = 500000 \<and>
   next_sample tape_rng (demo_state 0 False (1/2) 0 False None (young [1/2, 1/2, 1/2, 1/2, 1/2])) =
     Some (Inr ((demo_sample 20)\<lparr>hvalue := 0\<rparr>, 1,
                demo_state 0 False (1/2) 1 False (Some ((demo_sample 20)\<lparr>hvalue := 0\<rparr>, 1)) []))"
proof (intro conjI)
  show "draw tape_rng (young [1/2, 1/2, 1/2, 1/2, 1/2]) = (demo_sample 20, [1/2, 1/2, 1/2, 1/2, 1/2])"
    by (rule draw_young)
  show "zipcode (demo_sample 20) = 4" "hvalue (demo_sample 20) = 500000"
    by (simp_all add: demo_sample_def)
  show "next_sample tape_rng (demo_state 0 False (1/2) 0 False None (young [1/2, 1/2, 1/2, 1/2, 1/2])) =
     Some (Inr ((demo_sample 20)\<lparr>hvalue := 0\<rparr>, 1,
                demo_state 0 False (1/2) 1 False (Some ((demo_sample 20)\<lparr>hvalue := 0\<rparr>, 1)) []))"
    unfolding next_sample_def demo_state_def
    by (subst rejection_loop.simps)
       (simp add: draw_young classify_0_age age_demo_sample perturb_demo_sample)
qed

subsection \<open>Rounding to binary64\<close>

lemma np_round_cases: "np_round x = \<lfloor>x\<rfloor> \<or> np_round x = \<lfloor>x\<rfloor> + 1"
  by (simp add: np_round_def Let_def)

lemma np_round_mono:
  assumes "a \<le> b"
  shows "np_round a \<le> np_round b"
proof (cases "\<lfloor>a\<rfloor> = \<lfloor>b\<rfloor>")
  case True
  with assms have "a - of_int \<lfloor>a\<rfloor> \<le> b - of_int \<lfloor>b\<rfloor>" by simp
  with True show ?thesis by (auto simp add: np_round_def Let_def)
next
  case False
  from assms have "\<lfloor>a\<rfloor> \<le> \<lfloor>b\<rfloor>" by (rule floor_mono)
  with False have "\<lfloor>a\<rfloor> + 1 \<le> \<lfloor>b\<rfloor>" by simp
  moreover have "np_round a \<le> \<lfloor>a\<rfloor> + 1" using np_round_cases [of a] by auto
  moreover have "\<lfloor>b\<rfloor> \<le> np_round b" using np_round_cases [of b] by auto
  ultimately show ?thesis by simp
qed

lemma binade:
  assumes "0 < x"
  shows "2 powr of_int \<lfloor>log 2 x\<rfloor> \<le> x \<and> x < 2 powr (of_int \<lfloor>log 2 x\<rfloor> + 1)"
proof -
  have "of_int \<lfloor>log 2 x\<rfloor> \<le> log 2 x" by simp
  then have "2 powr of_int \<lfloor>log 2 x\<rfloor> \<le> 2 powr log 2 x" by (simp only: powr_le_cancel_iff)
  moreover have "log 2 x < of_int \<lfloor>log 2 x\<rfloor> + 1" by linarith
  then have "2 powr log 2 x < 2 powr (of_int \<lfloor>log 2 x\<rfloor> + 1)" by (simp only: powr_less_cancel_iff)
  ultimately show ?thesis using assms by simp
qed

lemma fl64_pos:
  assumes "0 < x"
  shows "fl64 x = of_int (np_round (x / 2 powr (of_int \<lfloor>log 2 x\<rfloor> - 52))) *
                  2 powr (of_int \<lfloor>log 2 x\<rfloor> - 52)"
  using assms by (simp add: fl64_def Let_def)

lemma fl64_in_binade:
  assumes "0 < x"
  shows "2 powr of_int \<lfloor>log 2 x\<rfloor> \<le> fl64 x \<and> fl64 x \<le> 2 powr (of_int \<lfloor>log 2 x\<rfloor> + 1)"
proof -
  let ?e = "of_int \<lfloor>log 2 x\<rfloor> :: real"
  let ?q = "2 powr (?e - 52)"
  have q: "0 < ?q" by simp
  have lo: "2 powr ?e = 2 ^ 52 * ?q" and hi: "2 powr (?e + 1) = 2 ^ 53 * ?q"
    by (simp_all add: powr_diff powr_add)
  from binade [OF assms] have "2 ^ 52 * ?q \<le> x" "x \<le> 2 ^ 53 * ?q"
    unfolding lo hi by simp_all
  with q have "of_int (2 ^ 52) \<le> x / ?q" "x / ?q \<le> of_int (2 ^ 53)"
    by (simp_all add: pos_le_divide_eq pos_divide_le_eq)
  from np_round_range [OF this] have "2 ^ 52 \<le> np_round (x / ?q)" "np_round (x / ?q) \<le> 2 ^ 53"
    by simp_all
  then have "(2 ^ 52 :: real) \<le> of_int (np_round (x / ?q))" "of_int (np_round (x / ?q)) \<le> (2 ^ 53 :: real)"
    by (metis of_int_le_iff of_int_numeral of_int_power)+
  with q have "2 ^ 52 * ?q \<le> of_int (np_round (x / ?q)) * ?q"
    "of_int (np_round (x / ?q)) * ?q \<le> 2 ^ 53 * ?q"
    by simp_all
  then show ?thesis unfolding lo hi fl64_pos [OF assms] by simp
qed

lemma fl64_mono_pos:
  assumes "0 < x" and "x \<le> y"
  shows "fl64 x \<le> fl64 y"
proof -
  from assms have y: "0 < y" by simp
  from assms have l: "log 2 x \<le> log 2 y" by simp
  then have e: "\<lfloor>log 2 x\<rfloor> \<le> \<lfloor>log 2 y\<rfloor>" by (rule floor_mono)
  show ?thesis
  proof (cases "\<lfloor>log 2 x\<rfloor> = \<lfloor>log 2 y\<rfloor>")
    case True
    let ?q = "2 powr (of_int \<lfloor>log 2 y\<rfloor> - 52) :: real"
    have q: "0 < ?q" by simp
    from assms(2) q have "x / ?q \<le> y / ?q" by (simp add: divide_right_mono)
    then have "np_round (x / ?q) \<le> np_round (y / ?q)" by (rule np_round_mono)
    then have "(of_int (np_round (x / ?q)) :: real) \<le> of_int (np_round (y / ?q))" by simp
    with q have "of_int (np_round (x / ?q)) * ?q \<le> of_int (np_round (y / ?q)) * ?q" by simp
    then show ?thesis unfolding fl64_pos [OF assms(1)] fl64_pos [OF y] True .
  next
    case False
    with e have "\<lfloor>log 2 x\<rfloor> + 1 \<le> \<lfloor>log 2 y\<rfloor>" by simp
    then have "(of_int \<lfloor>log 2 x\<rfloor> :: real) + 1 \<le> of_int \<lfloor>log 2 y\<rfloor>" by linarith
    then have "(2::real) powr (of_int \<lfloor>log 2 x\<rfloor> + 1) \<le> 2 powr of_int \<lfloor>log 2 y\<rfloor>"
      by (simp only: powr_le_cancel_iff) 
    with fl64_in_binade [OF assms(1)] fl64_in_binade [OF y] show ?thesis by linarith
  qed
qed

lemma fl64_nonneg: "0 \<le> x \<Longrightarrow> 0 \<le> fl64 x"
proof (cases "x = 0")
  case True
  then show ?thesis by (simp add: fl64_def)
next
  case False
  assume "0 \<le> x"
  with False have "0 < x" by simp
  from fl64_in_binade [OF this] have "2 powr of_int \<lfloor>log 2 x\<rfloor> \<le> fl64 x" by simp
  moreover have "(0::real) < 2 powr of_int \<lfloor>log 2 x\<rfloor>" by simp
  ultimately show ?thesis by linarith
qed

lemma fl64_mono:
  assumes "0 \<le> x" and "x \<le> y"
  shows "fl64 x \<le> fl64 y"
proof (cases "x = 0")
  case True
  with assms fl64_nonneg [of y] show ?thesis by (simp add: fl64_def)
next
  case False
  with assms have "0 < x" by simp
  then show ?thesis using assms(2) by (rule fl64_mono_pos)
qed

text \<open>Rounding a value whose binade is known.\<close>

lemma fl64_binade:
  fixes e :: nat
  assumes "2 ^ e \<le> x" and "x < 2 ^ Suc e" and "e \<le> 52"
  shows "fl64 x = of_int (np_round (x * 2 ^ (52 - e))) / 2 ^ (52 - e)"
proof -
  have x: "0 < x" using assms(1) by (smt (verit) zero_less_power)
  have "real e \<le> log 2 x" using assms(1) x by (simp add: le_log_iff powr_realpow)
  moreover have "log 2 x < real e + 1"
    using assms(2) x by (simp add: log_less_iff powr_add powr_realpow)
  ultimately have f: "\<lfloor>log 2 x\<rfloor> = int e" by linarith
  have "(2::real) powr (of_int (int e) - 52) = 2 powr (- real (52 - e))"
    using assms(3) by simp
  also have "\<dots> = inverse (2 ^ (52 - e))" by (simp add: powr_minus powr_realpow)
  finally have q: "(2::real) powr (of_int (int e) - 52) = inverse (2 ^ (52 - e))" .
  show ?thesis unfolding fl64_pos [OF x] f q by (simp add: divide_inverse)
qed

subsection \<open>The raw draws in binary64\<close>

lemma draw_with_identity: "draw_with (\<lambda>x. x) ops g = draw ops g"
  by (simp add: draw_with_def draw_def Let_def split_beta)

lemma fl64_exact:
  "fl64 20000 = 20000" "fl64 150000 = 150000" "fl64 130000 = 130000" "fl64 10000 = 10000"
  "fl64 85000 = 85000" "fl64 75000 = 75000" "fl64 500000 = 500000" "fl64 900000 = 900000"
  "fl64 1 = 1"
  using np_round_of_int [of "20000 * 2 ^ 38"] np_round_of_int [of "150000 * 2 ^ 35"]
    np_round_of_int [of "130000 * 2 ^ 36"] np_round_of_int [of "10000 * 2 ^ 39"]
    np_round_of_int [of "85000 * 2 ^ 36"] np_round_of_int [of "75000 * 2 ^ 36"]
    np_round_of_int [of "500000 * 2 ^ 34"] np_round_of_int [of "900000 * 2 ^ 33"]
    np_round_of_int [of "2 ^ 52"]
  by (simp_all add: fl64_binade [of 14] fl64_binade [of 17] fl64_binade [of 16]
      fl64_binade [of 13] fl64_binade [of 18] fl64_binade [of 19] fl64_binade [of 0])

lemma fl64_top:
  "fl64 (130000 * (1 - 1 / 2 ^ 53)) = 130000 - 1 / 2 ^ 36"
  "fl64 (20000 + (130000 - 1 / 2 ^ 36)) = 150000"
  "fl64 (75000 * (1 - 1 / 2 ^ 53)) = 75000 - 1 / 2 ^ 36"
  "fl64 (10000 + (75000 - 1 / 2 ^ 36)) = 85000 - 1 / 2 ^ 36"
  "fl64 ((1 - 1 / 2 ^ 53) * 500000) = 500000 - 1 / 2 ^ 34"
  by (simp_all add: fl64_binade [of 16] fl64_binade [of 17] fl64_binade [of 18] np_round_def)

lemma fl64_zero: "fl64 0 = 0"
  by (simp add: fl64_def)

lemma salary_float_range:
  assumes "0 \<le> u" and "u < 1"
  shows "20000 \<le> fl64 (20000 + fl64 (130000 * u)) \<and> fl64 (20000 + fl64 (130000 * u)) \<le> 150000"
proof -
  from assms have "0 \<le> 130000 * u" "130000 * u \<le> 130000" by simp_all
  then have p: "0 \<le> fl64 (130000 * u)" "fl64 (130000 * u) \<le> 130000"
    using fl64_nonneg [of "130000 * u"] fl64_mono [of "130000 * u" 130000]
    by (simp_all add: fl64_exact)
  then have "fl64 20000 \<le> fl64 (20000 + fl64 (130000 * u))"
    "fl64 (20000 + fl64 (130000 * u)) \<le> fl64 150000"
    by (intro fl64_mono; simp)+
  then show ?thesis by (simp add: fl64_exact)
qed

lemma commission_float_range:
  assumes "0 \<le> u" and "u \<le> 1 - 1 / 2 ^ 53"
  shows "10000 \<le> fl64 (10000 + fl64 (75000 * u)) \<and> fl64 (10000 + fl64 (75000 * u)) < 85000"
proof -
  from assms have "0 \<le> 75000 * u" "75000 * u \<le> 75000 * (1 - 1 / 2 ^ 53)" by simp_all
  then have p: "0 \<le> fl64 (75000 * u)" "fl64 (75000 * u) \<le> 75000 - 1 / 2 ^ 36"
    using fl64_nonneg [of "75000 * u"] fl64_mono [of "75000 * u" "75000 * (1 - 1 / 2 ^ 53)"]
    by (simp_all only: fl64_top)
  then have "fl64 10000 \<le> fl64 (10000 + fl64 (75000 * u))"
    "fl64 (10000 + fl64 (75000 * u)) \<le> fl64 (10000 + (75000 - 1 / 2 ^ 36))"
    by (intro fl64_mono; simp)+
  then show ?thesis by (simp only: fl64_exact fl64_top) simp
qed

lemma loan_float_range:
  assumes "0 \<le> u" and "u \<le> 1 - 1 / 2 ^ 53"
  shows "0 \<le> fl64 (u * 500000) \<and> fl64 (u * 500000) < 500000"
proof -
  from assms have "0 \<le> u * 500000" "u * 500000 \<le> (1 - 1 / 2 ^ 53) * 500000" by simp_all
  then have "0 \<le> fl64 (u * 500000)" "fl64 (u * 500000) \<le> 500000 - 1 / 2 ^ 34"
    using fl64_nonneg [of "u * 500000"] fl64_mono [of "u * 500000" "(1 - 1 / 2 ^ 53) * 500000"]
    by (simp_all only: fl64_top)
  then show ?thesis by simp
qed

lemma tape64_rand:
  "rng_rand tape64_rng (u # us) = (if 0 \<le> u \<and> u \<le> 1 - 1 / 2 ^ 53 then u else 0, us)"
  by (simp add: tape64_rng_def)

lemma tape64_randint:
  "rng_randint tape64_rng n (u # us) = (\<lfloor>(if 0 \<le> u \<and> u < 1 then u else 0) * of_int n\<rfloor>, us)"
  by (simp add: tape64_rng_def tape_randint)

lemma tape64_ok: "rng_ok tape64_rng \<and> rand_is_binary64 tape64_rng"
proof -
  have "0 \<le> fst (rng_rand tape64_rng g) \<and> fst (rng_rand tape64_rng g) \<le> 1 - 1 / 2 ^ 53" for g
    by (cases g) (simp_all add: tape64_rng_def)
  moreover have "rng_randint tape64_rng = rng_randint tape_rng" by (simp add: tape64_rng_def)
  ultimately show ?thesis
    using tape_rng_ok unfolding rng_ok_def rand_is_binary64_def
    by (smt (verit, best) divide_pos_pos zero_less_numeral zero_less_one zero_less_power)
qed

lemma top_double_range: "0 \<le> top_double \<and> top_double \<le> 1 - 1 / 2 ^ 53 \<and> top_double < 1"
  by (simp add: top_double_def)

lemma tape64_rand_top: "rng_rand tape64_rng (top_double # us) = (top_double, us)"
  by (simp add: tape64_rng_def top_double_def)

lemma salary_top: "fl64 (20000 + fl64 (130000 * top_double)) = 150000"
  unfolding top_double_def by (simp only: fl64_top)

lemma draw_float_top:
  "draw_float tape64_rng [top_double, 0, 0, 0, 0, 1/2, 0, 0] =
     (\<lparr>salary = 150000, commission = 0, age = 20, elevel = 0, car = 0, zipcode = 0,
       hvalue = 900000, hyears = 1, loan = 0\<rparr>, [])"
proof -
  have "rng_rand tape64_rng [top_double, 0, 0, 0, 0, 1/2, 0, 0] = (top_double, [0, 0, 0, 0, 1/2, 0, 0])"
    by (rule tape64_rand_top)
  then show ?thesis
    unfolding draw_float_def draw_with_def
    by (simp add: tape64_rand tape64_randint salary_top fl64_exact fl64_zero)
qed

lemma draw_float_bottom:
  "draw_float tape64_rng [0, 0, 0, 0, 0, 0, 1/2, 0, 0] =
     (\<lparr>salary = 20000, commission = 10000, age = 20, elevel = 0, car = 0, zipcode = 0,
       hvalue = 900000, hyears = 1, loan = 0\<rparr>, [])"
  by (simp add: draw_float_def draw_with_def tape64_rand tape64_randint fl64_exact fl64_zero)

lemma draw_float_in_range:
  assumes ok: "rng_ok ops" and b: "rand_is_binary64 ops" and d: "draw_float ops g = (s, g')"
  shows "20000 \<le> salary s \<and> salary s \<le> 150000 \<and> 20 \<le> age s \<and> age s \<le> 80 \<and>
     0 \<le> elevel s \<and> elevel s < 5 \<and> 0 \<le> car s \<and> car s < 20 \<and>
     0 \<le> zipcode s \<and> zipcode s < 9 \<and> 1 \<le> hyears s \<and> hyears s \<le> 30 \<and>
     0 \<le> loan s \<and> loan s < 500000 \<and>
     (salary s \<ge> 75000 \<longrightarrow> commission s = 0) \<and>
     (salary s < 75000 \<longrightarrow> 10000 \<le> commission s \<and> commission s < 85000)"
proof -
  note i = rng_randint_range [OF ok]
  have r: "0 \<le> fst (rng_rand ops h)" "fst (rng_rand ops h) < 1"
    "fst (rng_rand ops h) \<le> 1 - 1 / 2 ^ 53" for h
    using rng_rand_range [OF ok, of h] b by (simp_all add: rand_is_binary64_def)
  have s: "s = fst (draw_float ops g)" using d by simp
  have sal: "20000 \<le> salary s \<and> salary s \<le> 150000"
    using salary_float_range [OF r(1,2)]
    by (simp add: s draw_float_def draw_with_def Let_def split_beta)
  have i61: "0 \<le> fst (rng_randint ops 61 h) \<and> fst (rng_randint ops 61 h) \<le> 60" for h
    using i [of 61 h] by simp
  have i30: "0 \<le> fst (rng_randint ops 30 h) \<and> fst (rng_randint ops 30 h) \<le> 29" for h
    using i [of 30 h] by simp
  have a: "20 \<le> age s \<and> age s \<le> 80"
    by (simp add: s draw_float_def draw_with_def Let_def split_beta i61)
  have el: "0 \<le> elevel s \<and> elevel s < 5"
    by (simp add: s draw_float_def draw_with_def Let_def split_beta i [of 5])
  have c: "0 \<le> car s \<and> car s < 20"
    by (simp add: s draw_float_def draw_with_def Let_def split_beta i [of 20])
  have z: "0 \<le> zipcode s \<and> zipcode s < 9"
    by (simp add: s draw_float_def draw_with_def Let_def split_beta i [of 9])
  have hy: "1 \<le> hyears s \<and> hyears s \<le> 30"
    by (simp add: s draw_float_def draw_with_def Let_def split_beta i30)
  have lo: "0 \<le> loan s \<and> loan s < 500000"
    using loan_float_range [OF r(1,3)]
    by (simp add: s draw_float_def draw_with_def Let_def split_beta)
  have c0: "salary s \<ge> 75000 \<longrightarrow> commission s = 0"
    by (simp add: s draw_float_def draw_with_def Let_def split_beta)
  have c1: "salary s < 75000 \<longrightarrow> 10000 \<le> commission s \<and> commission s < 85000"
    using commission_float_range [OF r(1,3)]
    by (simp add: s draw_float_def draw_with_def Let_def split_beta)
  show ?thesis using sal a el c z hy lo c0 c1 by blast
qed

text \<open>
  Claim C7, as amended. In binary64, for a random source whose \<open>rand()\<close> returns
  binary64 numbers in [0, 1), a raw draw has salary in the closed interval from 20000 to
  150000, age in [20, 80], elevel in [0, 5), car in [0, 20), zipcode in [0, 9), hyears in
  [1, 30] and loan in [0, 500000); its commission is 0 when the salary is at least 75000
  and lies in [10000, 85000) otherwise.
\<close>

theorem draw_float_ranges:
  assumes "rng_ok ops" and "rand_is_binary64 ops" and "draw_float ops g = (s, g')"
  shows "20000 \<le> salary s \<and> salary s \<le> 150000 \<and> 20 \<le> age s \<and> age s \<le> 80 \<and>
     0 \<le> elevel s \<and> elevel s < 5 \<and> 0 \<le> car s \<and> car s < 20 \<and>
     0 \<le> zipcode s \<and> zipcode s < 9 \<and> 1 \<le> hyears s \<and> hyears s \<le> 30 \<and>
     0 \<le> loan s \<and> loan s < 500000 \<and>
     (salary s \<ge> 75000 \<longrightarrow> commission s = 0) \<and>
     (salary s < 75000 \<longrightarrow> 10000 \<le> commission s \<and> commission s < 85000)"
  using assms by (rule draw_float_in_range)

theorem draw_float_ranges_witness:
  "rng_ok tape64_rng \<and> rand_is_binary64 tape64_rng \<and>
   draw_float tape64_rng [top_double, 0, 0, 0, 0, 1/2, 0, 0] =
     (\<lparr>salary = 150000, commission = 0, age = 20, elevel = 0, car = 0, zipcode = 0,
       hvalue = 900000, hyears = 1, loan = 0\<rparr>, []) \<and>
   draw_float tape64_rng [0, 0, 0, 0, 0, 0, 1/2, 0, 0] =
     (\<lparr>salary = 20000, commission = 10000, age = 20, elevel = 0, car = 0, zipcode = 0,
       hvalue = 900000, hyears = 1, loan = 0\<rparr>, [])"
  using draw_float_ranges [OF conjunct1 [OF tape64_ok] conjunct2 [OF tape64_ok] draw_float_top]
    draw_float_ranges [OF conjunct1 [OF tape64_ok] conjunct2 [OF tape64_ok] draw_float_bottom]
  by (simp add: tape64_ok draw_float_top draw_float_bottom)

text \<open>
  Claim C7 as stated fails at the top of the salary range: when \<open>rand()\<close> returns
  \<open>1 - 2^-53\<close>, the product \<open>130000 * rand()\<close> rounds to \<open>130000 - 2^-36\<close> and the
  sum with 20000, which lies half way between two binary64 numbers, rounds to the even
  one, 150000.
\<close>

theorem top_draw_has_salary_150000:
  "top_double = 1 - 1 / 2 ^ 53 \<and>
   draw_float tape64_rng [top_double, 0, 0, 0, 0, 1/2, 0, 0] =
     (\<lparr>salary = 150000, commission = 0, age = 20, elevel = 0, car = 0, zipcode = 0,
       hvalue = 900000, hyears = 1, loan = 0\<rparr>, []) \<and>
   \<not> salary (fst (draw_float tape64_rng [top_double, 0, 0, 0, 0, 1/2, 0, 0])) < 150000"
proof (intro conjI)
  show "top_double = 1 - 1 / 2 ^ 53" by (rule top_double_def)
  show "draw_float tape64_rng [top_double, 0, 0, 0, 0, 1/2, 0, 0] =
     (\<lparr>salary = 150000, commission = 0, age = 20, elevel = 0, car = 0, zipcode = 0,
       hvalue = 900000, hyears = 1, loan = 0\<rparr>, [])"
    by (rule draw_float_top)
  show "\<not> salary (fst (draw_float tape64_rng [top_double, 0, 0, 0, 0, 1/2, 0, 0])) < 150000"
    by (simp add: draw_float_top)
qed

subsection \<open>Which index a drift picks, and how often\<close>

lemma first_other_Some:
  "first_other cur ds = Some j \<longleftrightarrow>
     (\<exists>k<length ds. ds ! k = j \<and> j \<noteq> cur \<and> (\<forall>i<k. ds ! i = cur))"
proof (induction ds)
  case Nil
  then show ?case by simp
next
  case (Cons d ds)
  show ?case
  proof (cases "d = cur")
    case True
    have "(\<exists>k<length (d # ds). (d # ds) ! k = j \<and> j \<noteq> cur \<and> (\<forall>i<k. (d # ds) ! i = cur)) \<longleftrightarrow>
          (\<exists>k<length ds. ds ! k = j \<and> j \<noteq> cur \<and> (\<forall>i<k. ds ! i = cur))" (is "?l \<longleftrightarrow> ?r")
    proof
      assume ?l
      then obtain k where k: "k < length (d # ds)" "(d # ds) ! k = j" "j \<noteq> cur"
        "\<forall>i<k. (d # ds) ! i = cur" by blast
      from k(2,3) True obtain k' where k': "k = Suc k'" by (cases k) auto
      with k(1,2) have "k' < length ds" "ds ! k' = j" by simp_all
      moreover have "\<forall>i<k'. ds ! i = cur"
      proof (intro allI impI)
        fix i assume "i < k'"
        with k' have "Suc i < k" by simp
        with k(4) have "(d # ds) ! Suc i = cur" by blast
        then show "ds ! i = cur" by simp
      qed
      ultimately show ?r using k(3) by blast
    next
      assume ?r
      then obtain k where k: "k < length ds" "ds ! k = j" "j \<noteq> cur" "\<forall>i<k. ds ! i = cur"
        by blast
      have "\<forall>i<Suc k. (d # ds) ! i = cur"
      proof (intro allI impI)
        fix i assume "i < Suc k"
        with k(4) True show "(d # ds) ! i = cur" by (cases i) simp_all
      qed
      with k(1,2,3) show ?l by (intro exI [of _ "Suc k"]) simp
    qed
    with True Cons show ?thesis by simp
  next
    case False
    have "(\<exists>k<length (d # ds). (d # ds) ! k = j \<and> j \<noteq> cur \<and> (\<forall>i<k. (d # ds) ! i = cur)) \<longleftrightarrow>
          d = j" (is "?l \<longleftrightarrow> _")
    proof
      assume ?l
      then obtain k where k: "(d # ds) ! k = j" "\<forall>i<k. (d # ds) ! i = cur" by blast
      show "d = j"
      proof (cases k)
        case 0
        with k(1) show ?thesis by simp
      next
        case (Suc k')
        with k(2) have "(d # ds) ! 0 = cur" by blast
        with False show ?thesis by simp
      qed
    next
      assume "d = j"
      with False show ?l by (intro exI [of _ 0]) simp
    qed
    with False show ?thesis by auto
  qed
qed

lemma first_other_None: "first_other cur ds = None \<longleftrightarrow> ds = replicate (length ds) cur"
  by (induction ds) auto

lemma draws_nth: "k < n \<Longrightarrow> draws ops n g ! k = fst (nth_randint ops 10 k g)"
  by (simp add: draws_def)

lemma length_draws: "length (draws ops n g) = n"
  by (simp add: draws_def)

lemma generate_drift_first_other:
  "(\<exists>n. first_other (classification_function st) (draws ops n (rng st)) = Some j) \<longleftrightarrow>
   (\<exists>st'. generate_drift ops st = Some st' \<and> classification_function st' = j)"
    (is "?l \<longleftrightarrow> ?r")
proof
  assume ?l
  then obtain n k where k: "k < n" "draws ops n (rng st) ! k = j"
    "j \<noteq> classification_function st"
    "\<forall>i<k. draws ops n (rng st) ! i = classification_function st"
    unfolding first_other_Some length_draws by blast
  from k(1,2) have j: "fst (nth_randint ops 10 k (rng st)) = j" by (simp add: draws_nth)
  have "\<forall>i<k. fst (nth_randint ops 10 i (rng st)) = classification_function st"
  proof (intro allI impI)
    fix i assume i: "i < k"
    with k(1) have n: "i < n" by simp
    from k(4) i have "draws ops n (rng st) ! i = classification_function st" by blast
    then show "fst (nth_randint ops 10 i (rng st)) = classification_function st"
      unfolding draws_nth [OF n] .
  qed
  with j k(3) have "generate_drift ops st =
      Some (st\<lparr>classification_function := fst (nth_randint ops 10 k (rng st)),
               rng := snd (nth_randint ops 10 k (rng st))\<rparr>)"
    unfolding generate_drift_iff by blast
  with j show ?r by simp
next
  assume ?r
  then obtain st' k where
    k: "fst (nth_randint ops 10 k (rng st)) \<noteq> classification_function st"
       "\<forall>i<k. fst (nth_randint ops 10 i (rng st)) = classification_function st"
       "st' = st\<lparr>classification_function := fst (nth_randint ops 10 k (rng st)),
                 rng := snd (nth_randint ops 10 k (rng st))\<rparr>"
    and j: "classification_function st' = j"
    unfolding generate_drift_iff by blast
  from k(3) j have j': "fst (nth_randint ops 10 k (rng st)) = j" by simp
  have "first_other (classification_function st) (draws ops (Suc k) (rng st)) = Some j"
    unfolding first_other_Some length_draws
  proof (intro exI [of _ k] conjI allI impI)
    show "k < Suc k" by simp
    show "draws ops (Suc k) (rng st) ! k = j" using j' by (simp add: draws_nth)
    show "j \<noteq> classification_function st" using k(1) j' by simp
    fix i assume "i < k"
    with k(2) show "draws ops (Suc k) (rng st) ! i = classification_function st"
      by (simp add: draws_nth)
  qed
  then show ?l by blast
qed

lemma nine_hits: "9 * hits n + 1 = 10 ^ n"
  by (induction n) simp_all

lemma card_first_other_Some:
  assumes cur: "cur \<in> {0..<10}" and j: "j \<in> {0..<10}" and ne: "j \<noteq> cur"
  shows "card {ds. set ds \<subseteq> {0..<10} \<and> length ds = n \<and> first_other cur ds = Some j} = hits n"
proof (induction n)
  case 0
  have "{ds. set ds \<subseteq> {0..<10::int} \<and> length ds = 0 \<and> first_other cur ds = Some j} = {}"
    by auto
  then show ?case by simp
next
  case (Suc n)
  let ?L = "{ds. set ds \<subseteq> {0..<10::int} \<and> length ds = n}"
  let ?A = "{ds. set ds \<subseteq> {0..<10::int} \<and> length ds = n \<and> first_other cur ds = Some j}"
  have fL: "finite ?L" by (rule finite_lists_length_eq) simp
  have cL: "card ?L = 10 ^ n" using card_lists_length_eq [of "{0..<10::int}" n] by simp
  have "?A \<subseteq> ?L" by auto
  with fL have fA: "finite ?A" by (rule finite_subset [rotated])
  have eq: "{ds. set ds \<subseteq> {0..<10::int} \<and> length ds = Suc n \<and> first_other cur ds = Some j} =
        (#) cur ` ?A \<union> (#) j ` ?L" (is "?B = _")
  proof (intro set_eqI iffI)
    fix ds assume "ds \<in> ?B"
    then obtain d ds' where d: "ds = d # ds'" "d \<in> {0..<10}" "set ds' \<subseteq> {0..<10}"
      "length ds' = n" "first_other cur (d # ds') = Some j"
      by (cases ds) auto
    show "ds \<in> (#) cur ` ?A \<union> (#) j ` ?L"
    proof (cases "d = cur")
      case True
      with d have "ds' \<in> ?A" by simp
      with d(1) True show ?thesis by blast
    next
      case False
      with d(5) have "d = j" by simp
      with d show ?thesis by blast
    qed
  next
    fix ds assume "ds \<in> (#) cur ` ?A \<union> (#) j ` ?L"
    then show "ds \<in> ?B" using cur j ne by auto
  qed
  have disj: "(#) cur ` ?A \<inter> (#) j ` ?L = {}" using ne by auto
  have "card ?B = card ((#) cur ` ?A) + card ((#) j ` ?L)"
    unfolding eq using fA fL disj by (intro card_Un_disjoint) simp_all
  also have "card ((#) cur ` ?A) = card ?A" by (intro card_image) simp
  also have "card ((#) j ` ?L) = card ?L" by (intro card_image) simp
  finally show ?case using Suc cL by simp
qed

lemma card_first_other_None:
  assumes "cur \<in> {0..<10}"
  shows "card {ds. set ds \<subseteq> {0..<10} \<and> length ds = n \<and> first_other cur ds = None} = 1"
proof -
  have "{ds. set ds \<subseteq> {0..<10} \<and> length ds = n \<and> first_other cur ds = None} = {replicate n cur}"
    using assms by (auto simp add: first_other_None)
  then show ?thesis by simp
qed

lemma demo_draws: "draws tape_rng 2 [0, 1/2] = [0, 5]"
proof -
  have "[0..<2] = [0, Suc 0]" by (simp add: upt_rec)
  then show ?thesis by (simp add: draws_def tape_randint)
qed

text \<open>
  Claim C8. \<open>generate_drift\<close> returns exactly when some draw of \<open>randint(10)\<close> differs
  from the index held before the call, and then the new index is the first such draw: it
  differs from the old index, it lies in 0..9 for a source that keeps its contract, and
  nothing but the index and the state of the source has changed, so the call can be
  repeated. For a uniform source, where the \<open>10^n\<close> sequences of the first \<open>n\<close> draws are
  equally likely: exactly one of them, the one that repeats the current index, leaves the
  call running after \<open>n\<close> draws, and each of the nine other indices is picked by the
  same number of them, \<open>(10^n - 1) / 9\<close>. So the call ends with probability 1 and the
  nine other indices are equally likely.
\<close>

theorem generate_drift_picks_another_index:
  "(generate_drift ops st = Some st' \<longleftrightarrow>
     (\<exists>k. fst (nth_randint ops 10 k (rng st)) \<noteq> classification_function st \<and>
          (\<forall>j<k. fst (nth_randint ops 10 j (rng st)) = classification_function st) \<and>
          st' = st\<lparr>classification_function := fst (nth_randint ops 10 k (rng st)),
                   rng := snd (nth_randint ops 10 k (rng st))\<rparr>)) \<and>
   (generate_drift ops st = Some st' \<longrightarrow>
      classification_function st' \<noteq> classification_function st \<and>
      st' = st\<lparr>classification_function := classification_function st', rng := rng st'\<rparr>) \<and>
   (rng_ok ops \<and> generate_drift ops st = Some st' \<longrightarrow>
      0 \<le> classification_function st' \<and> classification_function st' < 10) \<and>
   ((\<exists>n. first_other (classification_function st) (draws ops n (rng st)) = Some j) \<longleftrightarrow>
    (\<exists>st'. generate_drift ops st = Some st' \<and> classification_function st' = j)) \<and>
   (cur \<in> {0..<10} \<and> j \<in> {0..<10} \<and> j \<noteq> cur \<longrightarrow>
      card {ds. set ds \<subseteq> {0..<10} \<and> length ds = n \<and> first_other cur ds = Some j} = hits n \<and>
      card {ds. set ds \<subseteq> {0..<10} \<and> length ds = n \<and> first_other cur ds = None} = 1 \<and>
      9 * hits n + 1 = 10 ^ n)"
proof (intro conjI impI)
  show "generate_drift ops st = Some st' \<longleftrightarrow>
     (\<exists>k. fst (nth_randint ops 10 k (rng st)) \<noteq> classification_function st \<and>
          (\<forall>j<k. fst (nth_randint ops 10 j (rng st)) = classification_function st) \<and>
          st' = st\<lparr>classification_function := fst (nth_randint ops 10 k (rng st)),
                   rng := snd (nth_randint ops 10 k (rng st))\<rparr>)"
    by (rule generate_drift_iff)
next
  assume "generate_drift ops st = Some st'"
  then obtain k where k: "fst (nth_randint ops 10 k (rng st)) \<noteq> classification_function st"
    "st' = st\<lparr>classification_function := fst (nth_randint ops 10 k (rng st)),
                   rng := snd (nth_randint ops 10 k (rng st))\<rparr>"
    unfolding generate_drift_iff by blast
  from k(1) show "classification_function st' \<noteq> classification_function st"
    by (simp add: k(2))
  show "st' = st\<lparr>classification_function := classification_function st', rng := rng st'\<rparr>"
    by (simp add: k(2))
next
  assume "rng_ok ops \<and> generate_drift ops st = Some st'"
  then have "0 \<le> classification_function st' \<and> classification_function st' < 10"
    using generate_drift_range [of ops st st'] by simp
  then show "0 \<le> classification_function st'" "classification_function st' < 10"
    by simp_all
next
  show "(\<exists>n. first_other (classification_function st) (draws ops n (rng st)) = Some j) \<longleftrightarrow>
    (\<exists>st'. generate_drift ops st = Some st' \<and> classification_function st' = j)"
    by (rule generate_drift_first_other)
next
  assume a: "cur \<in> {0..<10} \<and> j \<in> {0..<10} \<and> j \<noteq> cur"
  then show "card {ds. set ds \<subseteq> {0..<10} \<and> length ds = n \<and> first_other cur ds = Some j} = hits n"
    by (simp add: card_first_other_Some)
  from a show "card {ds. set ds \<subseteq> {0..<10} \<and> length ds = n \<and> first_other cur ds = None} = 1"
    by (simp add: card_first_other_None)
  show "9 * hits n + 1 = 10 ^ n" by (rule nine_hits)
qed

theorem generate_drift_picks_another_index_witness:
  "rng_ok tape_rng \<and>
   generate_drift tape_rng (demo_state 0 False 0 0 False None [0, 1/2]) =
     Some (demo_state 5 False 0 0 False None []) \<and>
   draws tape_rng 2 [0, 1/2] = [0, 5] \<and> first_other 0 [0, 5] = Some 5 \<and>
   hits 2 = 11 \<and> 9 * hits 2 + 1 = 10 ^ 2"
proof -
  have h: "hits 2 = 11" by (simp add: numeral_2_eq_2)
  show ?thesis
    using generate_drift_picks_another_index [of tape_rng
      "demo_state 0 False 0 0 False None [0, 1/2]" "demo_state 5 False 0 0 False None []" 5 0 2]
    by (simp add: tape_rng_ok demo_drift demo_draws h)
qed

section \<open>Properties of the posterior estimator\<close>

subsection \<open>The two loops\<close>

lemma update_new: "k \<notin> fst ` set al \<Longrightarrow> AList.update k v al = al @ [(k, v)]"
  by (induction al) auto

lemma likelihood_loop_eq:
  "map_of votes c = Some s0 \<Longrightarrow>
   likelihood_loop x obs c (votes, q) =
     Inr (AList.update c (s0 + evidence x obs c) votes, q @ queried x obs c)"
proof (induction obs arbitrary: votes q s0)
  case Nil
  then show ?case by (simp add: evidence_def queried_def update_triv)
next
  case (Cons p obs)
  obtain a ob where p: "p = (a, ob)" by (cases p)
  show ?case
  proof (cases "x a")
    case None
    with Cons p show ?thesis by (simp add: evidence_def queried_def)
  next
    case (Some v)
    let ?d = "if ob v c > 0 then ln (ob v c) else 0"
    have "map_of (AList.update c (s0 + ?d) votes) c = Some (s0 + ?d)"
      by (simp add: update_conv')
    from Cons.IH [OF this] Cons.prems Some p show ?thesis
      by (simp add: evidence_def queried_def Let_def add.assoc)
  qed
qed

lemma class_loop_Inr:
  "class_loop x t obs prior (votes, q) = Inr r \<Longrightarrow>
   r = (fold (\<lambda>(c, w). AList.update c (spec_score x t obs c w)) prior votes,
        q @ concat (map (\<lambda>(c, w). if w > 0 then queried x obs c else []) prior))"
proof (induction prior arbitrary: votes q)
  case Nil
  then show ?case by simp
next
  case (Cons p prior)
  obtain c w where p: "p = (c, w)" by (cases p)
  show ?case
  proof (cases "w > 0")
    case False
    with Cons.prems p have "class_loop x t obs prior (AList.update c 0 votes, q) = Inr r"
      by simp
    from Cons.IH [OF this] False p show ?thesis by (simp add: spec_score_def)
  next
    case True
    with Cons.prems p have pos: "w / t > 0"
      by (auto simp add: math_log_def split: if_splits)
    let ?v = "AList.update c (ln (w / t)) votes"
    have l: "likelihood_loop x obs c (?v, q) =
        Inr (AList.update c (ln (w / t) + evidence x obs c) ?v, q @ queried x obs c)"
      by (rule likelihood_loop_eq) (simp add: update_conv')
    have "class_loop x t obs prior (AList.update c (ln (w / t) + evidence x obs c) votes,
         q @ queried x obs c) = Inr r"
    proof (cases "obs = []")
      case True
      then have "evidence x obs c = 0" "queried x obs c = []"
        by (simp_all add: evidence_def queried_def)
      with Cons.prems p \<open>w > 0\<close> pos True show ?thesis by (simp add: math_log_def)
    next
      case False
      with Cons.prems p \<open>w > 0\<close> pos show ?thesis by (simp add: math_log_def l)
    qed
    from Cons.IH [OF this] True p show ?thesis by (simp add: spec_score_def)
  qed
qed

lemma class_loop_total:
  "\<forall>(c, w) \<in> set prior. w > 0 \<longrightarrow> w / t > 0 \<Longrightarrow> \<exists>r. class_loop x t obs prior (votes, q) = Inr r"
proof (induction prior arbitrary: votes q)
  case Nil
  then show ?case by simp
next
  case (Cons p prior)
  obtain c w where p: "p = (c, w)" by (cases p)
  from Cons.prems have rest: "\<forall>(c, w) \<in> set prior. w > 0 \<longrightarrow> w / t > 0" by simp
  show ?case
  proof (cases "w > 0")
    case False
    with Cons.IH [OF rest] p show ?thesis by simp
  next
    case True
    with Cons.prems p have pos: "w / t > 0" by simp
    let ?v = "AList.update c (ln (w / t)) votes"
    have l: "likelihood_loop x obs c (?v, q) =
        Inr (AList.update c (ln (w / t) + evidence x obs c) ?v, q @ queried x obs c)"
      by (rule likelihood_loop_eq) (simp add: update_conv')
    show ?thesis
    proof (cases "obs = []")
      case True
      with Cons.IH [OF rest] p \<open>w > 0\<close> pos show ?thesis by (simp add: math_log_def)
    next
      case False
      with Cons.IH [OF rest] p \<open>w > 0\<close> pos show ?thesis by (simp add: math_log_def l)
    qed
  qed
qed

lemma fold_update_fresh:
  "distinct (map fst prior) \<Longrightarrow> fst ` set prior \<inter> fst ` set votes = {} \<Longrightarrow>
   fold (\<lambda>(c, w). AList.update c (f c w)) prior votes = votes @ map (\<lambda>(c, w). (c, f c w)) prior"
proof (induction prior arbitrary: votes)
  case Nil
  then show ?case by simp
next
  case (Cons p prior)
  obtain c w where p: "p = (c, w)" by (cases p)
  from Cons.prems p have c: "c \<notin> fst ` set votes" by auto
  from Cons.prems p have "fst ` set prior \<inter> fst ` set (votes @ [(c, f c w)]) = {}"
    by auto
  with Cons.IH [of "votes @ [(c, f c w)]"] Cons.prems p c show ?case
    by (simp add: update_new)
qed

lemma class_loop_votes:
  assumes "distinct (map fst prior)" and "class_loop x t obs prior ([], []) = Inr (votes, q)"
  shows "votes = map (\<lambda>(c, w). (c, spec_score x t obs c w)) prior"
    and "q = concat (map (\<lambda>(c, w). if w > 0 then queried x obs c else []) prior)"
  using class_loop_Inr [OF assms(2)] fold_update_fresh [OF assms(1), of "[]" "spec_score x t obs"]
  by simp_all

subsection \<open>Normalisation\<close>

lemma sum_list_exp_pos: "vs \<noteq> [] \<Longrightarrow> 0 < sum_list (map exp vs :: real list)"
proof (induction vs)
  case Nil
  then show ?case by simp
next
  case (Cons v vs)
  have "0 \<le> sum_list (map exp vs :: real list)" by (rule sum_list_nonneg) auto
  then show ?case by (simp add: add_pos_nonneg)
qed

lemma exp_le_sum_list: "v \<in> set vs \<Longrightarrow> exp v \<le> sum_list (map exp vs :: real list)"
proof (induction vs)
  case Nil
  then show ?case by simp
next
  case (Cons u vs)
  have n: "0 \<le> sum_list (map exp vs :: real list)" by (rule sum_list_nonneg) auto
  from Cons show ?case
  proof (cases "v = u")
    case True
    with n show ?thesis by simp
  next
    case False
    with Cons have "exp v \<le> sum_list (map exp vs)" by simp
    then show ?thesis by (simp add: add_increasing)
  qed
qed

lemma normalise_softmax:
  assumes "votes \<noteq> []"
  shows "normalise votes = softmax votes"
proof -
  let ?vs = "map snd votes"
  let ?m = "Max (set ?vs)"
  let ?T = "sum_list (map exp ?vs)"
  from assms have T: "0 < ?T" by (intro sum_list_exp_pos) simp
  have "sum_list (map (\<lambda>v. exp (v - ?m)) ?vs) = sum_list (map (\<lambda>v. exp v * exp (- ?m)) ?vs)"
    by (simp add: exp_diff exp_minus divide_inverse)
  also have "\<dots> = ?T * exp (- ?m)"
    by (simp add: sum_list_mult_const [symmetric] comp_def)
  finally have S: "sum_list (map (\<lambda>v. exp (v - ?m)) ?vs) = ?T * exp (- ?m)" .
  have lse: "?m + ln (sum_list (map (\<lambda>v. exp (v - ?m)) ?vs)) = ln ?T"
    unfolding S using T by (simp add: ln_mult)
  have "exp (v - ln ?T) = exp v / ?T" for v
    using T by (simp add: exp_diff)
  then show ?thesis
    unfolding normalise_def softmax_def Let_def lse by simp
qed

lemma softmax_keys: "map fst (softmax votes) = map fst votes"
  by (simp add: softmax_def split_beta comp_def)

lemma softmax_sum:
  assumes "votes \<noteq> []"
  shows "sum_list (map snd (softmax votes)) = 1"
proof -
  let ?T = "sum_list (map exp (map snd votes))"
  from assms have T: "0 < ?T" by (intro sum_list_exp_pos) simp
  have "map snd (softmax votes) = map (\<lambda>v. exp v * inverse ?T) (map snd votes)"
    by (simp add: softmax_def split_beta comp_def divide_inverse)
  then have "sum_list (map snd (softmax votes)) = ?T * inverse ?T"
    by (simp add: sum_list_mult_const [symmetric] comp_def)
  with T show ?thesis by simp
qed

lemma softmax_range:
  assumes "(c, p) \<in> set (softmax votes)"
  shows "0 < p \<and> p \<le> 1"
proof -
  let ?T = "sum_list (map exp (map snd votes))"
  from assms obtain s where s: "(c, s) \<in> set votes" "p = exp s / ?T"
    by (auto simp add: softmax_def)
  from s(1) have "votes \<noteq> []" by auto
  then have T: "0 < ?T" by (intro sum_list_exp_pos) simp
  from s(1) have "s \<in> set (map snd votes)" by force
  then have "exp s \<le> ?T" by (rule exp_le_sum_list)
  with T s(2) show ?thesis by simp
qed

subsection \<open>The estimator\<close>

lemma prediction_None:
  "do_naive_bayes_prediction x prior obs = Inr None \<longleftrightarrow>
     prior = [] \<or> sum_list (map snd prior) = 0"
  by (auto simp add: do_naive_bayes_prediction_def Let_def split: sum.splits prod.splits)

lemma prediction_Some:
  assumes "do_naive_bayes_prediction x prior obs = Inr (Some post)"
  shows "prior \<noteq> [] \<and> sum_list (map snd prior) \<noteq> 0 \<and>
         (\<exists>votes q. class_loop x (sum_list (map snd prior)) obs prior ([], []) = Inr (votes, q) \<and>
                     post = normalise votes)"
  using assms
  by (auto simp add: do_naive_bayes_prediction_def Let_def split: sum.splits prod.splits if_splits)

lemma prediction_softmax:
  assumes "distinct (map fst prior)" and "do_naive_bayes_prediction x prior obs = Inr (Some post)"
  shows "post = softmax (map (\<lambda>(c, w). (c, spec_score x (sum_list (map snd prior)) obs c w)) prior)"
proof -
  from prediction_Some [OF assms(2)] obtain votes q where
    n: "prior \<noteq> []" and
    cl: "class_loop x (sum_list (map snd prior)) obs prior ([], []) = Inr (votes, q)" and
    p: "post = normalise votes" by blast
  from class_loop_votes(1) [OF assms(1) cl] have
    v: "votes = map (\<lambda>(c, w). (c, spec_score x (sum_list (map snd prior)) obs c w)) prior" .
  with n have "votes \<noteq> []" by simp
  with p v show ?thesis by (simp add: normalise_softmax)
qed

lemma prediction_total:
  assumes "prior \<noteq> []" and "sum_list (map snd prior) \<noteq> 0" and "\<forall>(c, w) \<in> set prior. 0 \<le> w"
  shows "\<exists>post. do_naive_bayes_prediction x prior obs = Inr (Some post)"
proof -
  from assms(3) have "0 \<le> sum_list (map snd prior)" by (intro sum_list_nonneg) auto
  with assms(2) have t: "0 < sum_list (map snd prior)" by simp
  then have "\<forall>(c, w) \<in> set prior. w > 0 \<longrightarrow> w / sum_list (map snd prior) > 0" by simp
  from class_loop_total [OF this, of x obs "[]" "[]"] assms(1,2) show ?thesis
    by (auto simp add: do_naive_bayes_prediction_def Let_def)
qed

subsection \<open>Running the estimator\<close>

lemma demo_class_loop:
  "class_loop demo_record 4 demo_observers demo_prior ([], []) =
     Inr ([(0, ln (1/2) + ln (1/2)), (1, 0), (2, ln (1/2))], [(0, 0), (0, 2)])"
  by (simp add: demo_prior_def demo_observers_def demo_record_def demo_observer_def math_log_def)

lemma demo_softmax:
  "softmax [(0::nat, ln (1/2) + ln (1/2)), (1, 0), (2, ln (1/2))] = [(0, 1/7), (1, 4/7), (2, 2/7)]"
proof -
  have h: "exp (ln (1/2 :: real)) = 1/2" by simp
  have "exp (ln (1/2) + ln (1/2) :: real) = exp (ln (1/2)) * exp (ln (1/2))" by (rule exp_add)
  also have "\<dots> = 1/4" unfolding h by simp
  finally have e: "exp (ln (1/2) + ln (1/2) :: real) = 1/4" .
  have "2 * ln (1/2 :: real) = ln (1/2) + ln (1/2)" by (rule mult_2)
  with e have e': "exp (2 * ln (1/2) :: real) = 1/4" by (simp only:)
  show ?thesis unfolding softmax_def by (simp add: e e' h)
qed

lemma demo_prediction:
  "do_naive_bayes_prediction demo_record demo_prior demo_observers =
     Inr (Some [(0, 1/7), (1, 4/7), (2, 2/7)])"
proof -
  have t: "sum_list (map snd demo_prior) = 4" "demo_prior \<noteq> []" by (simp_all add: demo_prior_def)
  have "normalise [(0::nat, ln (1/2) + ln (1/2)), (1, 0), (2, ln (1/2))] = [(0, 1/7), (1, 4/7), (2, 2/7)]"
    by (subst normalise_softmax) (simp_all only: demo_softmax list.distinct not_False_eq_True)
  then show ?thesis
    unfolding do_naive_bayes_prediction_def Let_def t(1) demo_class_loop by (simp add: t(2))
qed

lemma demo_pure_prior_loop:
  "class_loop x 4 [] [(0::nat, 3), (1, 1)] ([], []) = Inr ([(0, ln (3/4)), (1, ln (1/4))], [])"
  by (simp add: math_log_def)

lemma demo_pure_prior_softmax:
  "softmax [(0::nat, ln (3/4)), (1, ln (1/4))] = [(0, 3/4), (1, 1/4)]"
proof -
  have "exp (ln (3/4 :: real)) = 3/4" "exp (ln (1/4 :: real)) = 1/4" by simp_all
  then show ?thesis unfolding softmax_def by simp
qed

lemma demo_pure_prior:
  "do_naive_bayes_prediction x [(0::nat, 3), (1, 1)] [] = Inr (Some [(0, 3/4), (1, 1/4)])"
proof -
  have "normalise [(0::nat, ln (3/4)), (1, ln (1/4))] = [(0, 3/4), (1, 1/4)]"
    by (subst normalise_softmax) (simp_all only: demo_pure_prior_softmax list.distinct not_False_eq_True)
  moreover have "sum_list (map snd [(0::nat, 3::real), (1, 1)]) = 4" by simp
  ultimately show ?thesis
    unfolding do_naive_bayes_prediction_def Let_def
    by (simp only: demo_pure_prior_loop) simp
qed

subsection \<open>The claims about the estimator\<close>

text \<open>
  Claim C3. For a prior with distinct class indices, when the class loop ends without a
  domain error its votes are, class by class in the order of the prior: 0 for a class
  whose weight is not positive, and \<open>ln (w / total_weight)\<close> plus the evidence for a
  class of positive weight \<open>w\<close>, the evidence adding \<open>ln p\<close> for each observer whose
  attribute is in the record and whose answer \<open>p\<close> is positive, and 0 for the others.
  The observers are asked about the classes of positive weight only, so a class of
  weight 0 has the vote 0 and no query. The votes are then normalised all together, the
  0 votes among them: the result is the softmax of the votes.
\<close>

theorem zero_weight_vote_is_zero_and_unqueried:
  "(sum_list (map snd prior) \<noteq> 0 \<and> (\<forall>(c, w) \<in> set prior. 0 \<le> w) \<longrightarrow>
      (\<exists>votes q. class_loop x (sum_list (map snd prior)) obs prior ([], []) = Inr (votes, q))) \<and>
   (distinct (map fst prior) \<and>
   class_loop x (sum_list (map snd prior)) obs prior ([], []) = Inr (votes, q) \<longrightarrow>
     votes = map (\<lambda>(c, w). (c, if w > 0 then ln (w / sum_list (map snd prior)) + evidence x obs c
                                 else 0)) prior \<and>
     q = concat (map (\<lambda>(c, w). if w > 0 then queried x obs c else []) prior) \<and>
     (\<forall>(c, w) \<in> set prior. w = 0 \<longrightarrow> map_of votes c = Some 0 \<and> (\<forall>a. (a, c) \<notin> set q)) \<and>
     (prior \<noteq> [] \<and> sum_list (map snd prior) \<noteq> 0 \<longrightarrow>
        do_naive_bayes_prediction x prior obs = Inr (Some (softmax votes))))"
proof (rule conjI; rule impI)
  let ?t = "sum_list (map snd prior)"
  assume a: "?t \<noteq> 0 \<and> (\<forall>(c, w) \<in> set prior. 0 \<le> w)"
  then have "0 \<le> ?t" by (intro sum_list_nonneg) auto
  with a have "0 < ?t" by simp
  then have "\<forall>(c, w) \<in> set prior. w > 0 \<longrightarrow> w / ?t > 0" by simp
  from class_loop_total [OF this, of x obs "[]" "[]"]
  show "\<exists>votes q. class_loop x ?t obs prior ([], []) = Inr (votes, q)" by auto
next
  let ?t = "sum_list (map snd prior)"
  assume a: "distinct (map fst prior) \<and> class_loop x ?t obs prior ([], []) = Inr (votes, q)"
  then have d: "distinct (map fst prior)" and cl: "class_loop x ?t obs prior ([], []) = Inr (votes, q)"
    by simp_all
  have v: "votes = map (\<lambda>(c, w). (c, if w > 0 then ln (w / ?t) + evidence x obs c else 0)) prior"
    using class_loop_votes(1) [OF d cl] by (simp add: spec_score_def)
  have q: "q = concat (map (\<lambda>(c, w). if w > 0 then queried x obs c else []) prior)"
    by (rule class_loop_votes(2) [OF d cl])
  have z: "map_of votes c = Some 0 \<and> (\<forall>a. (a, c) \<notin> set q)" if m: "(c, w) \<in> set prior" and w: "w = 0"
    for c w
  proof
    have k: "map fst votes = map fst prior" unfolding v by (simp add: split_beta comp_def)
    from m w have "(c, 0) \<in> set votes" unfolding v by force
    moreover from d k have "distinct (map fst votes)" by simp
    ultimately show "map_of votes c = Some 0" by simp
    show "\<forall>a. (a, c) \<notin> set q"
    proof (intro allI notI)
      fix a assume "(a, c) \<in> set q"
      then obtain c' w' where m': "(c', w') \<in> set prior" and p: "w' > 0"
        and "(a, c) \<in> set (queried x obs c')"
        unfolding q by (auto split: if_splits)
      then have "c' = c" by (auto simp add: queried_def)
      with d m m' have "w' = w" by (meson eq_key_imp_eq_value)
      with p w show False by simp
    qed
  qed
  have n: "do_naive_bayes_prediction x prior obs = Inr (Some (softmax votes))"
    if "prior \<noteq> [] \<and> ?t \<noteq> 0"
  proof -
    from that v have "votes \<noteq> []" by simp
    then have "normalise votes = softmax votes" by (rule normalise_softmax)
    with that cl show ?thesis by (simp add: do_naive_bayes_prediction_def)
  qed
  from v q z n show "votes = map (\<lambda>(c, w). (c, if w > 0 then ln (w / ?t) + evidence x obs c else 0)) prior \<and>
     q = concat (map (\<lambda>(c, w). if w > 0 then queried x obs c else []) prior) \<and>
     (\<forall>(c, w) \<in> set prior. w = 0 \<longrightarrow> map_of votes c = Some 0 \<and> (\<forall>a. (a, c) \<notin> set q)) \<and>
     (prior \<noteq> [] \<and> ?t \<noteq> 0 \<longrightarrow>
        do_naive_bayes_prediction x prior obs = Inr (Some (softmax votes)))"
    by blast
qed

theorem zero_weight_vote_is_zero_and_unqueried_witness:
  "distinct (map fst demo_prior) \<and> sum_list (map snd demo_prior) = 4 \<and> (1, 0) \<in> set demo_prior \<and>
   class_loop demo_record 4 demo_observers demo_prior ([], []) =
     Inr ([(0, ln (1/2) + ln (1/2)), (1, 0), (2, ln (1/2))], [(0, 0), (0, 2)]) \<and>
   do_naive_bayes_prediction demo_record demo_prior demo_observers =
     Inr (Some (softmax [(0, ln (1/2) + ln (1/2)), (1, 0), (2, ln (1/2))])) \<and>
   softmax [(0::nat, ln (1/2) + ln (1/2)), (1, 0), (2, ln (1/2))] = [(0, 1/7), (1, 4/7), (2, 2/7)]"
proof -
  have t: "sum_list (map snd demo_prior) = 4" and d: "distinct (map fst demo_prior)"
    and m: "(1, 0) \<in> set demo_prior" and n: "demo_prior \<noteq> []"
    by (simp_all add: demo_prior_def)
  from zero_weight_vote_is_zero_and_unqueried [of demo_prior demo_record demo_observers
      "[(0, ln (1/2) + ln (1/2)), (1, 0), (2, ln (1/2))]" "[(0, 0), (0, 2)]"]
    d demo_class_loop n
  have p: "do_naive_bayes_prediction demo_record demo_prior demo_observers =
     Inr (Some (softmax [(0, ln (1/2) + ln (1/2)), (1, 0), (2, ln (1/2))]))"
    unfolding t by simp
  from p t d m demo_class_loop demo_softmax show ?thesis by simp
qed

text \<open>
  Claim C4. When the estimator returns a distribution for a prior with distinct class
  indices, the result has the class indices of the prior, in the same order, every value
  is a probability, and the values sum to 1. It does return one whenever the prior is not
  empty, its weights are not negative and their sum is not zero.
\<close>

theorem posterior_is_a_distribution:
  "(distinct (map fst prior) \<and> do_naive_bayes_prediction x prior obs = Inr (Some post) \<longrightarrow>
      map fst post = map fst prior \<and> (\<forall>(c, p) \<in> set post. 0 \<le> p \<and> p \<le> 1) \<and>
      sum_list (map snd post) = 1) \<and>
   (prior \<noteq> [] \<and> sum_list (map snd prior) \<noteq> 0 \<and> (\<forall>(c, w) \<in> set prior. 0 \<le> w) \<longrightarrow>
      (\<exists>post. do_naive_bayes_prediction x prior obs = Inr (Some post)))"
proof (intro conjI impI)
  assume a: "distinct (map fst prior) \<and> do_naive_bayes_prediction x prior obs = Inr (Some post)"
  let ?votes = "map (\<lambda>(c, w). (c, spec_score x (sum_list (map snd prior)) obs c w)) prior"
  from a have p: "post = softmax ?votes" by (simp add: prediction_softmax)
  from a have "prior \<noteq> []" using prediction_Some by blast
  then have n: "?votes \<noteq> []" by simp
  show "map fst post = map fst prior"
    unfolding p softmax_keys by (simp add: split_beta comp_def)
  show "\<forall>(c, p) \<in> set post. 0 \<le> p \<and> p \<le> 1"
    unfolding p using softmax_range [of _ _ ?votes] by force
  show "sum_list (map snd post) = 1"
    unfolding p using n by (rule softmax_sum)
next
  assume "prior \<noteq> [] \<and> sum_list (map snd prior) \<noteq> 0 \<and> (\<forall>(c, w) \<in> set prior. 0 \<le> w)"
  then show "\<exists>post. do_naive_bayes_prediction x prior obs = Inr (Some post)"
    by (simp add: prediction_total)
qed

theorem posterior_is_a_distribution_witness:
  "distinct (map fst demo_prior) \<and> demo_prior \<noteq> [] \<and> sum_list (map snd demo_prior) \<noteq> 0 \<and>
   do_naive_bayes_prediction demo_record demo_prior demo_observers =
     Inr (Some [(0, 1/7), (1, 4/7), (2, 2/7)]) \<and>
   map fst [(0::nat, 1/7 :: real), (1, 4/7), (2, 2/7)] = map fst demo_prior \<and>
   sum_list (map snd [(0::nat, 1/7 :: real), (1, 4/7), (2, 2/7)]) = 1"
  using posterior_is_a_distribution [of demo_prior demo_record demo_observers
      "[(0, 1/7), (1, 4/7), (2, 2/7)]"]
  by (simp add: demo_prediction) (simp add: demo_prior_def)

text \<open>
  Claim C5. The estimator returns \<open>None\<close> exactly when the prior is empty or its weights
  sum to zero; the prior \<open>{0: 0}\<close> with no observers is such a case.
\<close>

theorem undefined_exactly_for_empty_or_zero_total:
  "(do_naive_bayes_prediction x prior obs = Inr None \<longleftrightarrow>
      prior = [] \<or> sum_list (map snd prior) = 0) \<and>
   do_naive_bayes_prediction x [(0::nat, 0)] [] = Inr None"
  by (simp add: prediction_None)

text \<open>
  Claim C9. With the prior \<open>{0: 3, 1: 1}\<close> and no observers the estimator returns
  \<open>{0: 0.75, 1: 0.25}\<close>, for any record.
\<close>

theorem pure_prior_is_normalised:
  "do_naive_bayes_prediction x [(0::nat, 3), (1, 1)] [] = Inr (Some [(0, 3/4), (1, 1/4)])"
  by (rule demo_pure_prior)

end
